theory Spec2Isabelle
  imports Main "HOL-Library.Word"
begin

section \<open>Data model\<close>

text \<open>
  The simulator keeps its processes in C structs that are linked, through one embedded
  list node each, into the ready queue or into the wait queue of a resource. A process is
  identified here by the address of its struct (a natural number); the process table maps
  an address to the fields of the struct. The counters of a process are C
  \<^verbatim>\<open>unsigned int\<close> values, hence 32-bit words: subtraction wraps and every
  comparison is unsigned.
\<close>

type_synonym u32 = "32 word"

datatype process_status = PROCESS_READY | PROCESS_RUNNING | PROCESS_WAIT | PROCESS_EXIT

text \<open>
  Modelled from the spec: \<^verbatim>\<open>process.h\<close> is not among the sources. The record holds
  the fields that \<^verbatim>\<open>pa2.c\<close> reads and writes: the status, age and lifespan, the current
  and the original priority, and the list of resources the process still intends to
  acquire (\<^verbatim>\<open>__resources_to_acquire\<close>, kept as the list of the resource numbers).
\<close>

record process =
  status :: process_status
  age :: u32
  lifespan :: u32
  prio :: u32
  prio_orig :: u32
  resources_to_acquire :: "int list"

text \<open>\<^verbatim>\<open>struct resource\<close> of \<^verbatim>\<open>resource.h\<close>: the owner (\<open>None\<close> is the NULL
  pointer) and the wait queue, oldest waiter first.\<close>

record resource =
  owner :: "nat option"
  waitqueue :: "nat list"

definition NR_RESOURCES :: int where
  "NR_RESOURCES = 32"

text \<open>The globals of \<^verbatim>\<open>pa2.c\<close>: the process table, \<^verbatim>\<open>current\<close>, the ready queue
  (head first) and the resource table.\<close>

record sys =
  procs :: "nat \<Rightarrow> process"
  current :: "nat option"
  readyqueue :: "nat list"
  resources :: "nat \<Rightarrow> resource"

text \<open>
  What stops the program or leaves its behaviour undefined: a failed \<^verbatim>\<open>assert\<close>, a
  dereferenced NULL pointer, the use of the cursor of a \<^verbatim>\<open>list_for_each_entry\<close> loop
  that ran to its end without a \<^verbatim>\<open>break\<close> (the cursor then is computed from the list
  head and points at no process), and a resource number outside the table.
\<close>

datatype fault = AssertionFailed | NullDereference | StrayPointer | ResourceOutOfRange

section \<open>List primitives\<close>

text \<open>
  Modelled from the spec: \<^verbatim>\<open>list_head.h\<close> is not among the sources. A queue is the
  sequence of the processes linked into it, head first. \<^verbatim>\<open>list_add_tail\<close> appends,
  \<^verbatim>\<open>list_first_entry\<close> is the first element, \<^verbatim>\<open>list_empty\<close> tests for the empty
  sequence, \<^verbatim>\<open>list_del_init\<close> takes the entry out of the queue it is linked into, and
  \<^verbatim>\<open>list_for_each_entry\<close> visits the entries head first.
\<close>

datatype cursor = Null | Entry nat | Head

definition list_add_tail :: "nat \<Rightarrow> nat list \<Rightarrow> nat list" where
  "list_add_tail p q = q @ [p]"

fun list_del_init :: "cursor \<Rightarrow> nat list \<Rightarrow> fault + nat list" where
  "list_del_init Null q = Inl NullDereference"
| "list_del_init Head q = Inl StrayPointer"
| "list_del_init (Entry p) q = Inr (remove1 p q)"

text \<open>The loop \<^verbatim>\<open>if (min > key) min = key;\<close> over a queue.\<close>

fun scan_min :: "(nat \<Rightarrow> u32) \<Rightarrow> nat list \<Rightarrow> u32 \<Rightarrow> u32" where
  "scan_min f [] m = m"
| "scan_min f (p # ps) m = scan_min f ps (if m > f p then f p else m)"

text \<open>The loop \<^verbatim>\<open>if (max < key) max = key;\<close> over a queue.\<close>

fun scan_max :: "(nat \<Rightarrow> u32) \<Rightarrow> nat list \<Rightarrow> u32 \<Rightarrow> u32" where
  "scan_max f [] m = m"
| "scan_max f (p # ps) m = scan_max f ps (if m < f p then f p else m)"

text \<open>The loop \<^verbatim>\<open>if (m == key) break;\<close> over a queue, and where it leaves its cursor.\<close>

fun scan_eq :: "(nat \<Rightarrow> u32) \<Rightarrow> u32 \<Rightarrow> nat list \<Rightarrow> cursor" where
  "scan_eq f m [] = Head"
| "scan_eq f m (p # ps) = (if m = f p then Entry p else scan_eq f m ps)"

text \<open>The loop \<^verbatim>\<open>n++;\<close> over a list.\<close>

fun count_entries :: "'a list \<Rightarrow> u32 \<Rightarrow> u32" where
  "count_entries [] n = n"
| "count_entries (x # xs) n = count_entries xs (n + 1)"

section \<open>State updates\<close>

definition resource_in_range :: "int \<Rightarrow> bool" where
  "resource_in_range resource_id \<longleftrightarrow> 0 \<le> resource_id \<and> resource_id < NR_RESOURCES"

definition set_owner :: "nat \<Rightarrow> nat option \<Rightarrow> sys \<Rightarrow> sys" where
  "set_owner i p s = s\<lparr>resources := (resources s)(i := (resources s i)\<lparr>owner := p\<rparr>)\<rparr>"

definition set_waitqueue :: "nat \<Rightarrow> nat list \<Rightarrow> sys \<Rightarrow> sys" where
  "set_waitqueue i q s = s\<lparr>resources := (resources s)(i := (resources s i)\<lparr>waitqueue := q\<rparr>)\<rparr>"

definition set_status :: "nat \<Rightarrow> process_status \<Rightarrow> sys \<Rightarrow> sys" where
  "set_status p v s = s\<lparr>procs := (procs s)(p := (procs s p)\<lparr>status := v\<rparr>)\<rparr>"

definition set_prio :: "nat \<Rightarrow> u32 \<Rightarrow> sys \<Rightarrow> sys" where
  "set_prio p v s = s\<lparr>procs := (procs s)(p := (procs s p)\<lparr>prio := v\<rparr>)\<rparr>"

section \<open>FCFS acquire and release\<close>

definition fcfs_acquire :: "int \<Rightarrow> sys \<Rightarrow> fault + (bool \<times> sys)" where
  "fcfs_acquire resource_id s =
     (if \<not> resource_in_range resource_id then Inl ResourceOutOfRange
      else let i = nat resource_id; r = resources s i in
        (case owner r of
           None \<Rightarrow> Inr (True, set_owner i (current s) s)
         | Some _ \<Rightarrow>
             (case current s of
                None \<Rightarrow> Inl NullDereference
              | Some c \<Rightarrow>
                  let s1 = set_status c PROCESS_WAIT s in
                  Inr (False, set_waitqueue i (list_add_tail c (waitqueue r)) s1))))"

definition fcfs_release :: "int \<Rightarrow> sys \<Rightarrow> fault + sys" where
  "fcfs_release resource_id s =
     (if \<not> resource_in_range resource_id then Inl ResourceOutOfRange
      else let i = nat resource_id; r = resources s i in
        if owner r \<noteq> current s then Inl AssertionFailed
        else let s1 = set_owner i None s in
          (case waitqueue r of
             [] \<Rightarrow> Inr s1
           | waiter # _ \<Rightarrow>
               if status (procs s1 waiter) \<noteq> PROCESS_WAIT then Inl AssertionFailed
               else
                 let s2 = set_waitqueue i (remove1 waiter (waitqueue r)) s1;
                     s3 = set_status waiter PROCESS_READY s2
                 in Inr (s3\<lparr>readyqueue := list_add_tail waiter (readyqueue s3)\<rparr>)))"

section \<open>Schedulers\<close>

subsection \<open>FIFO\<close>

definition fifo_pick_next :: "sys \<Rightarrow> fault + (nat option \<times> sys)" where
  "fifo_pick_next s =
     (case readyqueue s of
        [] \<Rightarrow> Inr (None, s)
      | n # _ \<Rightarrow> Inr (Some n, s\<lparr>readyqueue := remove1 n (readyqueue s)\<rparr>))"

definition fifo_schedule :: "sys \<Rightarrow> fault + (nat option \<times> sys)" where
  "fifo_schedule s =
     (case current s of
        None \<Rightarrow> fifo_pick_next s
      | Some c \<Rightarrow>
          if status (procs s c) = PROCESS_WAIT then fifo_pick_next s
          else if age (procs s c) < lifespan (procs s c) then Inr (Some c, s)
          else fifo_pick_next s)"

subsection \<open>SJF\<close>

definition sjf_pick_next :: "sys \<Rightarrow> fault + (nat option \<times> sys)" where
  "sjf_pick_next s =
     (if readyqueue s \<noteq> [] then
        let f = (\<lambda>p. lifespan (procs s p));
            minv = scan_min f (readyqueue s) 100000;
            next = scan_eq f minv (readyqueue s)
        in (case list_del_init next (readyqueue s) of
              Inl e \<Rightarrow> Inl e
            | Inr q \<Rightarrow> Inr (case next of Entry n \<Rightarrow> Some n | _ \<Rightarrow> None, s\<lparr>readyqueue := q\<rparr>))
      else Inr (None, s))"

definition sjf_schedule :: "sys \<Rightarrow> fault + (nat option \<times> sys)" where
  "sjf_schedule s =
     (case current s of
        None \<Rightarrow> sjf_pick_next s
      | Some c \<Rightarrow>
          if status (procs s c) = PROCESS_WAIT then sjf_pick_next s
          else if age (procs s c) < lifespan (procs s c) then Inr (Some c, s)
          else sjf_pick_next s)"

subsection \<open>SRTF\<close>

text \<open>The remaining time \<^verbatim>\<open>lifespan - age\<close>, an unsigned subtraction.\<close>

definition remaining :: "sys \<Rightarrow> nat \<Rightarrow> u32" where
  "remaining s p = lifespan (procs s p) - age (procs s p)"

text \<open>The label \<^verbatim>\<open>pick_next\<close> of \<^verbatim>\<open>srtf_schedule\<close>; \<open>next\<close> is the cursor the scans
  at the top of the function left behind.\<close>

definition srtf_pick_next :: "cursor \<Rightarrow> sys \<Rightarrow> fault + (nat option \<times> sys)" where
  "srtf_pick_next next s =
     (if readyqueue s \<noteq> [] then
        (case list_del_init next (readyqueue s) of
           Inl e \<Rightarrow> Inl e
         | Inr q \<Rightarrow> Inr (case next of Entry n \<Rightarrow> Some n | _ \<Rightarrow> None, s\<lparr>readyqueue := q\<rparr>))
      else (case next of
              Head \<Rightarrow> Inl StrayPointer
            | Null \<Rightarrow> Inr (None, s)
            | Entry n \<Rightarrow> Inr (Some n, s)))"

definition srtf_schedule :: "sys \<Rightarrow> fault + (nat option \<times> sys)" where
  "srtf_schedule s =
     (let minv = (if readyqueue s \<noteq> [] then scan_min (remaining s) (readyqueue s) 100000
                  else 100000);
          next = (if readyqueue s \<noteq> [] then scan_eq (remaining s) minv (readyqueue s)
                  else Null)
      in (case current s of
            None \<Rightarrow> srtf_pick_next next s
          | Some c \<Rightarrow>
              if status (procs s c) = PROCESS_WAIT then srtf_pick_next next s
              else if age (procs s c) < lifespan (procs s c) then
                (if lifespan (procs s c) - age (procs s c) > minv then
                   srtf_pick_next next (s\<lparr>readyqueue := list_add_tail c (readyqueue s)\<rparr>)
                 else Inr (Some c, s))
              else srtf_pick_next next s))"

subsection \<open>Round-robin\<close>

definition rr_pick_next :: "sys \<Rightarrow> fault + (nat option \<times> sys)" where
  "rr_pick_next s =
     (case readyqueue s of
        [] \<Rightarrow> Inr (None, s)
      | n # _ \<Rightarrow> Inr (Some n, s\<lparr>readyqueue := remove1 n (readyqueue s)\<rparr>))"

definition rr_schedule :: "sys \<Rightarrow> fault + (nat option \<times> sys)" where
  "rr_schedule s =
     (case current s of
        None \<Rightarrow> rr_pick_next s
      | Some c \<Rightarrow>
          if status (procs s c) = PROCESS_WAIT \<or> age (procs s c) = lifespan (procs s c)
          then rr_pick_next s
          else if age (procs s c) < lifespan (procs s c) \<and> readyqueue s = []
          then Inr (Some c, s)
          else if readyqueue s \<noteq> []
          then rr_pick_next (s\<lparr>readyqueue := list_add_tail c (readyqueue s)\<rparr>)
          else rr_pick_next s)"

subsection \<open>Priority\<close>

text \<open>The label \<^verbatim>\<open>pick_next\<close> of \<^verbatim>\<open>prio_schedule\<close>.\<close>

definition prio_pick_next :: "sys \<Rightarrow> fault + (nat option \<times> sys)" where
  "prio_pick_next s =
     (case readyqueue s of
        [] \<Rightarrow> Inr (None, s)
      | temp # _ \<Rightarrow>
          let f = (\<lambda>p. prio_orig (procs s p));
              maxv = scan_max f (readyqueue s) (f temp);
              next = scan_eq f maxv (readyqueue s)
          in (case list_del_init next (readyqueue s) of
                Inl e \<Rightarrow> Inl e
              | Inr q \<Rightarrow> Inr (case next of Entry n \<Rightarrow> Some n | _ \<Rightarrow> None, s\<lparr>readyqueue := q\<rparr>)))"

definition prio_schedule :: "sys \<Rightarrow> fault + (nat option \<times> sys)" where
  "prio_schedule s =
     (case current s of
        None \<Rightarrow> prio_pick_next s
      | Some c \<Rightarrow>
          if status (procs s c) = PROCESS_WAIT \<or> age (procs s c) = lifespan (procs s c)
          then prio_pick_next s
          else if age (procs s c) < lifespan (procs s c) \<and> readyqueue s = []
          then Inr (Some c, s)
          else if readyqueue s \<noteq> [] then
            let f = (\<lambda>p. prio_orig (procs s p));
                maxv = scan_max f (readyqueue s) (f c);
                next = scan_eq f maxv (readyqueue s)
            in (case next of
                  Entry n \<Rightarrow>
                    Inr (Some n, s\<lparr>readyqueue := remove1 n (list_add_tail c (readyqueue s))\<rparr>)
                | _ \<Rightarrow> Inr (Some c, s))
          else Inr (None, s))"

definition prio_acquire :: "int \<Rightarrow> sys \<Rightarrow> fault + (bool \<times> sys)" where
  "prio_acquire resource_id s =
     (if \<not> resource_in_range resource_id then Inl ResourceOutOfRange
      else let i = nat resource_id; r = resources s i in
        (case owner r of
           None \<Rightarrow> Inr (True, set_owner i (current s) s)
         | Some _ \<Rightarrow>
             (case current s of
                None \<Rightarrow> Inl NullDereference
              | Some c \<Rightarrow>
                  let s1 = set_status c PROCESS_WAIT s in
                  Inr (False, set_waitqueue i (list_add_tail c (waitqueue r)) s1))))"

text \<open>
  \<^verbatim>\<open>prio_release\<close> scans the wait queue for the first waiter of maximal
  \<^verbatim>\<open>prio_orig\<close> with the function's variable \<^verbatim>\<open>p\<close>, and then declares a second
  \<^verbatim>\<open>p\<close> in the block, initialised with the first entry of the wait queue; everything
  after the declaration works on the second one.
\<close>

definition prio_release :: "int \<Rightarrow> sys \<Rightarrow> fault + sys" where
  "prio_release resource_id s =
     (if \<not> resource_in_range resource_id then Inl ResourceOutOfRange
      else let i = nat resource_id; r = resources s i in
        if owner r \<noteq> current s then Inl AssertionFailed
        else let s1 = set_owner i None s in
          (case waitqueue r of
             [] \<Rightarrow> Inr s1
           | first # _ \<Rightarrow>
               let f = (\<lambda>p. prio_orig (procs s1 p));
                   maxv = scan_max f (waitqueue r) (f first);
                   p_scanned = scan_eq f maxv (waitqueue r);
                   p = first
               in
                 if status (procs s1 p) \<noteq> PROCESS_WAIT then Inl AssertionFailed
                 else
                   let s2 = set_waitqueue i (remove1 p (waitqueue r)) s1;
                       s3 = set_status p PROCESS_READY s2
                   in Inr (s3\<lparr>readyqueue := list_add_tail p (readyqueue s3)\<rparr>)))"

subsection \<open>Priority with priority inheritance\<close>

definition pip_pick_next :: "sys \<Rightarrow> fault + (nat option \<times> sys)" where
  "pip_pick_next s =
     (case readyqueue s of
        [] \<Rightarrow> Inr (None, s)
      | temp # _ \<Rightarrow>
          let f = (\<lambda>p. prio (procs s p));
              maxv = scan_max f (readyqueue s) (f temp);
              next = scan_eq f maxv (readyqueue s)
          in (case list_del_init next (readyqueue s) of
                Inl e \<Rightarrow> Inl e
              | Inr q \<Rightarrow> Inr (case next of Entry n \<Rightarrow> Some n | _ \<Rightarrow> None, s\<lparr>readyqueue := q\<rparr>)))"

definition pip_schedule :: "sys \<Rightarrow> fault + (nat option \<times> sys)" where
  "pip_schedule s =
     (case current s of
        None \<Rightarrow> pip_pick_next s
      | Some c \<Rightarrow>
          if status (procs s c) = PROCESS_WAIT \<or> age (procs s c) = lifespan (procs s c)
          then pip_pick_next s
          else if age (procs s c) < lifespan (procs s c) \<and> readyqueue s = []
          then Inr (Some c, s)
          else if readyqueue s \<noteq> [] then
            let f = (\<lambda>p. prio (procs s p));
                maxv = scan_max f (readyqueue s) (f c);
                next = scan_eq f maxv (readyqueue s)
            in (case next of
                  Entry n \<Rightarrow>
                    Inr (Some n, s\<lparr>readyqueue := remove1 n (list_add_tail c (readyqueue s))\<rparr>)
                | _ \<Rightarrow> Inr (Some c, s))
          else Inr (None, s))"

definition pip_acquire :: "int \<Rightarrow> sys \<Rightarrow> fault + (bool \<times> sys)" where
  "pip_acquire resource_id s =
     (if \<not> resource_in_range resource_id then Inl ResourceOutOfRange
      else let i = nat resource_id; r = resources s i in
        (case owner r of
           None \<Rightarrow> Inr (True, set_owner i (current s) s)
         | Some ow \<Rightarrow>
             (case current s of
                None \<Rightarrow> Inl NullDereference
              | Some c \<Rightarrow>
                  let s1 = set_status c PROCESS_WAIT s;
                      s2 = (if prio (procs s1 ow) < prio (procs s1 c)
                            then set_prio ow (prio (procs s1 c)) s1 else s1)
                  in Inr (False, set_waitqueue i (list_add_tail c (waitqueue r)) s2))))"

text \<open>
  \<^verbatim>\<open>pip_release\<close> counts the entries of the waiter's \<^verbatim>\<open>__resources_to_acquire\<close>
  list twice, into \<^verbatim>\<open>acn\<close> and into \<^verbatim>\<open>hon\<close>, and wakes the waiter when the two
  counts agree.
\<close>

definition pip_release :: "int \<Rightarrow> sys \<Rightarrow> fault + sys" where
  "pip_release resource_id s =
     (if \<not> resource_in_range resource_id then Inl ResourceOutOfRange
      else let i = nat resource_id; r = resources s i in
        if owner r \<noteq> current s then Inl AssertionFailed
        else (case owner r of
                None \<Rightarrow> Inl NullDereference
              | Some ow \<Rightarrow>
                  let s0 = set_prio ow (prio_orig (procs s ow)) s;
                      s1 = set_owner i None s0
                  in (case waitqueue r of
                        [] \<Rightarrow> Inr s1
                      | first # _ \<Rightarrow>
                          let f = (\<lambda>p. prio (procs s1 p));
                              maxv = scan_max f (waitqueue r) (f first)
                          in (case scan_eq f maxv (waitqueue r) of
                                Null \<Rightarrow> Inl NullDereference
                              | Head \<Rightarrow> Inl StrayPointer
                              | Entry p \<Rightarrow>
                                  if status (procs s1 p) \<noteq> PROCESS_WAIT then Inl AssertionFailed
                                  else
                                    let s2 = set_waitqueue i (remove1 p (waitqueue r)) s1;
                                        acn = count_entries (resources_to_acquire (procs s2 p)) 0;
                                        hon = count_entries (resources_to_acquire (procs s2 p)) 0
                                    in if acn = hon then
                                         let s3 = set_status p PROCESS_READY s2
                                         in Inr (s3\<lparr>readyqueue := list_add_tail p (readyqueue s3)\<rparr>)
                                       else Inr s2))))"

section \<open>The tick driver\<close>

text \<open>
  Modelled from the spec: the driver that calls the scheduler once per tick is not among
  the sources. After each call of \<^verbatim>\<open>schedule()\<close> it makes the returned process the
  current one and advances the age of that process by one.
\<close>

definition dispatch :: "nat option \<Rightarrow> sys \<Rightarrow> sys" where
  "dispatch r s =
     (case r of
        None \<Rightarrow> s\<lparr>current := None\<rparr>
      | Some n \<Rightarrow> s\<lparr>current := Some n,
                     procs := (procs s)(n := (procs s n)\<lparr>age := age (procs s n) + 1\<rparr>)\<rparr>)"

definition tick :: "(sys \<Rightarrow> fault + (nat option \<times> sys)) \<Rightarrow> sys \<Rightarrow> fault + (nat option \<times> sys)" where
  "tick schedule s =
     (case schedule s of
        Inl e \<Rightarrow> Inl e
      | Inr (r, s') \<Rightarrow> Inr (r, dispatch r s'))"

text \<open>\<open>n\<close> ticks in a row, with the processes dispatched in them, first tick first.\<close>

fun run_ticks :: "(sys \<Rightarrow> fault + (nat option \<times> sys)) \<Rightarrow> nat \<Rightarrow> sys \<Rightarrow> fault + (nat option list \<times> sys)" where
  "run_ticks schedule 0 s = Inr ([], s)"
| "run_ticks schedule (Suc n) s =
     (case tick schedule s of
        Inl e \<Rightarrow> Inl e
      | Inr (r, s') \<Rightarrow>
          (case run_ticks schedule n s' of
             Inl e \<Rightarrow> Inl e
           | Inr (rs, s'') \<Rightarrow> Inr (r # rs, s'')))"

section \<open>Example states\<close>

definition mk_process :: "process_status \<Rightarrow> u32 \<Rightarrow> u32 \<Rightarrow> u32 \<Rightarrow> u32 \<Rightarrow> int list \<Rightarrow> process" where
  "mk_process st a l p po rs =
     \<lparr>status = st, age = a, lifespan = l, prio = p, prio_orig = po, resources_to_acquire = rs\<rparr>"

definition free_resource :: resource where
  "free_resource = \<lparr>owner = None, waitqueue = []\<rparr>"

text \<open>No process is current, nothing is ready, every resource is free.\<close>

definition idle_sys :: sys where
  "idle_sys =
     \<lparr>procs = (\<lambda>_. mk_process PROCESS_EXIT 0 0 0 0 []), current = None, readyqueue = [],
      resources = (\<lambda>_. free_resource)\<rparr>"

text \<open>
  Process 1 runs and owns resource 0; processes 2 (priority 1) and 3 (priority 5) wait
  for resource 0, in this order. Process 2 has two more resources to acquire.
\<close>

definition contended_sys :: sys where
  "contended_sys =
     \<lparr>procs = (\<lambda>_. mk_process PROCESS_EXIT 0 0 0 0 [])
        (1 := mk_process PROCESS_RUNNING 1 4 3 3 [],
         2 := mk_process PROCESS_WAIT 0 2 1 1 [0, 1],
         3 := mk_process PROCESS_WAIT 0 2 5 5 [0]),
      current = Some 1, readyqueue = [],
      resources = (\<lambda>_. free_resource)(0 := \<lparr>owner = Some 1, waitqueue = [2, 3]\<rparr>)\<rparr>"

text \<open>As above, with one waiter only: process 2, with two resources still to acquire.\<close>

definition pending_sys :: sys where
  "pending_sys =
     \<lparr>procs = (\<lambda>_. mk_process PROCESS_EXIT 0 0 0 0 [])
        (1 := mk_process PROCESS_RUNNING 1 4 3 3 [],
         2 := mk_process PROCESS_WAIT 0 2 1 1 [0, 1]),
      current = Some 1, readyqueue = [],
      resources = (\<lambda>_. free_resource)(0 := \<lparr>owner = Some 1, waitqueue = [2]\<rparr>)\<rparr>"

text \<open>
  Process 1 (priority 5) runs, process 2 (priority 5 as well) is ready: a tie.
\<close>

definition tie_sys :: sys where
  "tie_sys =
     \<lparr>procs = (\<lambda>_. mk_process PROCESS_EXIT 0 0 0 0 [])
        (1 := mk_process PROCESS_RUNNING 1 3 5 5 [],
         2 := mk_process PROCESS_READY 0 2 5 5 []),
      current = Some 1, readyqueue = [2],
      resources = (\<lambda>_. free_resource)\<rparr>"

text \<open>As \<open>tie_sys\<close>, with the ready process 2 at priority 3, below the running one.\<close>

definition lower_sys :: sys where
  "lower_sys =
     \<lparr>procs = (\<lambda>_. mk_process PROCESS_EXIT 0 0 0 0 [])
        (1 := mk_process PROCESS_RUNNING 1 3 5 5 [],
         2 := mk_process PROCESS_READY 0 2 3 3 []),
      current = Some 1, readyqueue = [2],
      resources = (\<lambda>_. free_resource)\<rparr>"

text \<open>Nothing runs; the only ready process has a lifespan of 200000 ticks.\<close>

definition long_ready_sys :: sys where
  "long_ready_sys =
     \<lparr>procs = (\<lambda>_. mk_process PROCESS_EXIT 0 0 0 0 [])
        (1 := mk_process PROCESS_READY 0 200000 0 0 []),
      current = None, readyqueue = [1],
      resources = (\<lambda>_. free_resource)\<rparr>"

text \<open>Process 1 runs with 199999 ticks of its lifespan left; nothing is ready.\<close>

definition long_running_sys :: sys where
  "long_running_sys =
     \<lparr>procs = (\<lambda>_. mk_process PROCESS_EXIT 0 0 0 0 [])
        (1 := mk_process PROCESS_RUNNING 1 200000 0 0 []),
      current = Some 1, readyqueue = [],
      resources = (\<lambda>_. free_resource)\<rparr>"

text \<open>Process 1 runs with 150000 ticks left; the ready process 2 has 200000 left.\<close>

definition long_both_sys :: sys where
  "long_both_sys =
     \<lparr>procs = (\<lambda>_. mk_process PROCESS_EXIT 0 0 0 0 [])
        (1 := mk_process PROCESS_RUNNING 50000 200000 0 0 [],
         2 := mk_process PROCESS_READY 0 200000 0 0 []),
      current = Some 1, readyqueue = [2],
      resources = (\<lambda>_. free_resource)\<rparr>"

text \<open>Process 1 runs with 2 ticks left; the ready processes 2 and 3 have 4 and 1 left.\<close>

definition short_sys :: sys where
  "short_sys =
     \<lparr>procs = (\<lambda>_. mk_process PROCESS_EXIT 0 0 0 0 [])
        (1 := mk_process PROCESS_RUNNING 1 3 0 0 [],
         2 := mk_process PROCESS_READY 0 4 0 0 [],
         3 := mk_process PROCESS_READY 1 2 0 0 []),
      current = Some 1, readyqueue = [2, 3],
      resources = (\<lambda>_. free_resource)\<rparr>"

text \<open>
  The round-robin example: P1 (lifespan 3) and P2 (lifespan 2) are ready, in this order,
  and nothing has run yet.
\<close>

definition rr_start_sys :: sys where
  "rr_start_sys =
     \<lparr>procs = (\<lambda>_. mk_process PROCESS_EXIT 0 0 0 0 [])
        (1 := mk_process PROCESS_READY 0 3 0 0 [],
         2 := mk_process PROCESS_READY 0 2 0 0 []),
      current = None, readyqueue = [1, 2],
      resources = (\<lambda>_. free_resource)\<rparr>"

text \<open>The same example one tick later: P1 has been dispatched and runs, P2 is ready.\<close>

definition rr_running_sys :: sys where
  "rr_running_sys =
     \<lparr>procs = (\<lambda>_. mk_process PROCESS_EXIT 0 0 0 0 [])
        (1 := mk_process PROCESS_READY 1 3 0 0 [],
         2 := mk_process PROCESS_READY 0 2 0 0 []),
      current = Some 1, readyqueue = [2],
      resources = (\<lambda>_. free_resource)\<rparr>"

text \<open>The same example after the fifth tick: both processes have reached their lifespan.\<close>

definition rr_done_sys :: sys where
  "rr_done_sys =
     \<lparr>procs = (\<lambda>_. mk_process PROCESS_EXIT 0 0 0 0 [])
        (1 := mk_process PROCESS_READY 3 3 0 0 [],
         2 := mk_process PROCESS_READY 2 2 0 0 []),
      current = Some 1, readyqueue = [],
      resources = (\<lambda>_. free_resource)\<rparr>"

text \<open>
  The inheritance example: the owner O (process 1, priority 1) holds resource 0, and the
  running process W (process 2, priority 5) is about to request it.
\<close>

definition inherit_sys :: sys where
  "inherit_sys =
     \<lparr>procs = (\<lambda>_. mk_process PROCESS_EXIT 0 0 0 0 [])
        (1 := mk_process PROCESS_READY 1 4 1 1 [],
         2 := mk_process PROCESS_RUNNING 0 2 5 5 [0]),
      current = Some 2, readyqueue = [1],
      resources = (\<lambda>_. free_resource)(0 := \<lparr>owner = Some 1, waitqueue = []\<rparr>)\<rparr>"

text \<open>After W's request: W waits for resource 0, and O has W's priority.\<close>

definition inherit_blocked_sys :: sys where
  "inherit_blocked_sys =
     \<lparr>procs = (\<lambda>_. mk_process PROCESS_EXIT 0 0 0 0 [])
        (1 := mk_process PROCESS_READY 1 4 5 1 [],
         2 := mk_process PROCESS_WAIT 0 2 5 5 [0]),
      current = Some 2, readyqueue = [1],
      resources = (\<lambda>_. free_resource)(0 := \<lparr>owner = Some 1, waitqueue = [2]\<rparr>)\<rparr>"

text \<open>After the next tick: O has been dispatched and runs.\<close>

definition inherit_owner_sys :: sys where
  "inherit_owner_sys =
     \<lparr>procs = (\<lambda>_. mk_process PROCESS_EXIT 0 0 0 0 [])
        (1 := mk_process PROCESS_READY 2 4 5 1 [],
         2 := mk_process PROCESS_WAIT 0 2 5 5 [0]),
      current = Some 1, readyqueue = [],
      resources = (\<lambda>_. free_resource)(0 := \<lparr>owner = Some 1, waitqueue = [2]\<rparr>)\<rparr>"

text \<open>After O's release: O is back at its original priority, and W is ready.\<close>

definition inherit_released_sys :: sys where
  "inherit_released_sys =
     \<lparr>procs = (\<lambda>_. mk_process PROCESS_EXIT 0 0 0 0 [])
        (1 := mk_process PROCESS_READY 2 4 1 1 [],
         2 := mk_process PROCESS_READY 0 2 5 5 [0]),
      current = Some 1, readyqueue = [2],
      resources = (\<lambda>_. free_resource)(0 := \<lparr>owner = None, waitqueue = []\<rparr>)\<rparr>"

section \<open>Properties of states\<close>

text \<open>\<open>n\<close> is the first entry of the queue whose key is maximal over the whole queue.\<close>

definition first_maximal :: "(nat \<Rightarrow> u32) \<Rightarrow> nat list \<Rightarrow> nat \<Rightarrow> bool" where
  "first_maximal f q n \<longleftrightarrow>
     n \<in> set q \<and> (\<forall>x \<in> set q. f x \<le> f n) \<and> (\<forall>x \<in> set (takeWhile (\<lambda>x. x \<noteq> n) q). f x < f n)"

text \<open>\<open>n\<close> is the first entry of the queue whose key is minimal over the whole queue.\<close>

definition first_minimal :: "(nat \<Rightarrow> u32) \<Rightarrow> nat list \<Rightarrow> nat \<Rightarrow> bool" where
  "first_minimal f q n \<longleftrightarrow>
     n \<in> set q \<and> (\<forall>x \<in> set q. f n \<le> f x) \<and> (\<forall>x \<in> set (takeWhile (\<lambda>x. x \<noteq> n) q). f n < f x)"

text \<open>The process is linked neither into the ready queue nor into a wait queue.\<close>

definition on_no_queue :: "sys \<Rightarrow> nat \<Rightarrow> bool" where
  "on_no_queue s p \<longleftrightarrow>
     p \<notin> set (readyqueue s) \<and> (\<forall>i<32. p \<notin> set (waitqueue (resources s i)))"

text \<open>No process occurs twice in a queue, and no process occurs in two queues.\<close>

definition queues_ok :: "sys \<Rightarrow> bool" where
  "queues_ok s \<longleftrightarrow>
     distinct (readyqueue s)
     \<and> (\<forall>i<32. distinct (waitqueue (resources s i)))
     \<and> (\<forall>i<32. set (readyqueue s) \<inter> set (waitqueue (resources s i)) = {})
     \<and> (\<forall>i<32. \<forall>j<32. i \<noteq> j \<longrightarrow>
           set (waitqueue (resources s i)) \<inter> set (waitqueue (resources s j)) = {})"

text \<open>
  The membership invariant: the queues are as above, and the current process, unless it
  is blocked in WAIT status, is on no queue.
\<close>

definition membership_inv :: "sys \<Rightarrow> bool" where
  "membership_inv s \<longleftrightarrow>
     queues_ok s
     \<and> (\<forall>c. current s = Some c \<and> status (procs s c) \<noteq> PROCESS_WAIT \<longrightarrow> on_no_queue s c)"

text \<open>
  What a call of a scheduler can do: return nothing or the running process and leave the
  state alone; take a process out of the ready queue and return it; or append the running
  process to the ready queue, take a process that was ready out of it and return that one.
\<close>

definition schedule_outcome :: "sys \<Rightarrow> nat option \<Rightarrow> sys \<Rightarrow> bool" where
  "schedule_outcome s r s' \<longleftrightarrow>
     (s' = s \<and> (r = None
        \<or> (\<exists>c. r = Some c \<and> current s = Some c \<and> status (procs s c) \<noteq> PROCESS_WAIT)))
     \<or> (\<exists>n. n \<in> set (readyqueue s) \<and> r = Some n
            \<and> s' = s\<lparr>readyqueue := remove1 n (readyqueue s)\<rparr>)
     \<or> (\<exists>c n. n \<in> set (readyqueue s) \<and> current s = Some c
            \<and> status (procs s c) \<noteq> PROCESS_WAIT \<and> r = Some n
            \<and> s' = s\<lparr>readyqueue := remove1 n (readyqueue s @ [c])\<rparr>)"

text \<open>
  What a release can do to the queues and the statuses: nothing; or take one waiter out of
  the resource's wait queue, append it to the ready queue and change its status.
\<close>

definition release_outcome :: "nat \<Rightarrow> sys \<Rightarrow> sys \<Rightarrow> bool" where
  "release_outcome i s s' \<longleftrightarrow>
     (readyqueue s' = readyqueue s \<and> current s' = current s
        \<and> (\<forall>p. status (procs s' p) = status (procs s p))
        \<and> (\<forall>j. waitqueue (resources s' j) = waitqueue (resources s j)))
     \<or> (\<exists>x. x \<in> set (waitqueue (resources s i))
            \<and> readyqueue s' = readyqueue s @ [x] \<and> current s' = current s
            \<and> (\<forall>p. p \<noteq> x \<longrightarrow> status (procs s' p) = status (procs s p))
            \<and> (\<forall>j. waitqueue (resources s' j) =
                  (if j = i then remove1 x (waitqueue (resources s i))
                   else waitqueue (resources s j))))"

text \<open>No process has a current priority below its original one.\<close>

definition prio_inv :: "sys \<Rightarrow> bool" where
  "prio_inv s \<longleftrightarrow> (\<forall>p. prio_orig (procs s p) \<le> prio (procs s p))"

section \<open>Sequences of core operations\<close>

datatype core_op =
    Acquire_fcfs int | Release_fcfs int
  | Acquire_prio int | Release_prio int
  | Acquire_pip int | Release_pip int
  | Schedule_fifo | Schedule_sjf | Schedule_srtf | Schedule_rr | Schedule_prio | Schedule_pip

definition after_acquire :: "fault + (bool \<times> sys) \<Rightarrow> fault + sys" where
  "after_acquire x = (case x of Inl e \<Rightarrow> Inl e | Inr (b, s') \<Rightarrow> Inr s')"

definition after_tick :: "fault + (nat option \<times> sys) \<Rightarrow> fault + sys" where
  "after_tick x = (case x of Inl e \<Rightarrow> Inl e | Inr (r, s') \<Rightarrow> Inr s')"

text \<open>One core operation; a call of a scheduler comes with the driver's update of the
  current process.\<close>

fun exec :: "core_op \<Rightarrow> sys \<Rightarrow> fault + sys" where
  "exec (Acquire_fcfs i) s = after_acquire (fcfs_acquire i s)"
| "exec (Release_fcfs i) s = fcfs_release i s"
| "exec (Acquire_prio i) s = after_acquire (prio_acquire i s)"
| "exec (Release_prio i) s = prio_release i s"
| "exec (Acquire_pip i) s = after_acquire (pip_acquire i s)"
| "exec (Release_pip i) s = pip_release i s"
| "exec Schedule_fifo s = after_tick (tick fifo_schedule s)"
| "exec Schedule_sjf s = after_tick (tick sjf_schedule s)"
| "exec Schedule_srtf s = after_tick (tick srtf_schedule s)"
| "exec Schedule_rr s = after_tick (tick rr_schedule s)"
| "exec Schedule_prio s = after_tick (tick prio_schedule s)"
| "exec Schedule_pip s = after_tick (tick pip_schedule s)"

text \<open>A sequence of core operations; the first fault ends it.\<close>

fun run_ops :: "core_op list \<Rightarrow> sys \<Rightarrow> fault + sys" where
  "run_ops [] s = Inr s"
| "run_ops (x # xs) s = (case exec x s of Inl e \<Rightarrow> Inl e | Inr s' \<Rightarrow> run_ops xs s')"

section \<open>Helper facts\<close>

lemmas update_defs =
  set_owner_def set_waitqueue_def set_status_def set_prio_def list_add_tail_def
  resource_in_range_def NR_RESOURCES_def

lemma resource_all_upd:
  "(r::resource)\<lparr>owner := a, waitqueue := b\<rparr> = \<lparr>owner = a, waitqueue = b\<rparr>"
  by (cases r) simp

lemma resource_owner_upd:
  "waitqueue (r::resource) = b \<Longrightarrow> r\<lparr>owner := a\<rparr> = \<lparr>owner = a, waitqueue = b\<rparr>"
  by (cases r) simp

lemma resource_waitqueue_upd:
  "owner (r::resource) = a \<Longrightarrow> r\<lparr>waitqueue := b\<rparr> = \<lparr>owner = a, waitqueue = b\<rparr>"
  by (cases r) simp


subsection \<open>The scans of a queue\<close>

lemma scan_max_ge_init: "m \<le> scan_max f xs m"
proof (induction xs arbitrary: m)
  case Nil show ?case by simp
next
  case (Cons x xs)
  have "m \<le> (if m < f x then f x else m)" by (simp add: less_imp_le)
  also have "\<dots> \<le> scan_max f xs (if m < f x then f x else m)" by (rule Cons.IH)
  finally show ?case by simp
qed

lemma scan_max_ge: "x \<in> set xs \<Longrightarrow> f x \<le> scan_max f xs m"
proof (induction xs arbitrary: m)
  case Nil then show ?case by simp
next
  case (Cons y ys)
  show ?case
  proof (cases "x = y")
    case True
    have "f y \<le> (if m < f y then f y else m)" by (simp add: not_less)
    also have "\<dots> \<le> scan_max f ys (if m < f y then f y else m)" by (rule scan_max_ge_init)
    finally show ?thesis using True by simp
  next
    case False
    with Cons.prems have "x \<in> set ys" by simp
    then show ?thesis using Cons.IH by simp
  qed
qed

lemma scan_max_cases: "scan_max f xs m = m \<or> scan_max f xs m \<in> f ` set xs"
proof (induction xs arbitrary: m)
  case Nil show ?case by simp
next
  case (Cons y ys)
  from Cons.IH [of "if m < f y then f y else m"] show ?case
    by (auto split: if_splits)
qed

lemma scan_eq_not_Null: "scan_eq f v xs \<noteq> Null"
  by (induction xs) auto

lemma scan_eq_Head: "scan_eq f v xs = Head \<longleftrightarrow> v \<notin> f ` set xs"
  by (induction xs) auto

lemma scan_eq_Entry:
  "scan_eq f v xs = Entry n \<Longrightarrow>
     n \<in> set xs \<and> f n = v \<and> (\<forall>x \<in> set (takeWhile (\<lambda>x. x \<noteq> n) xs). f x \<noteq> v)"
  by (induction xs) (auto split: if_splits)

lemma scan_eq_max_first_maximal:
  assumes "scan_eq f (scan_max f xs m) xs = Entry n"
  shows "first_maximal f xs n" and "m \<le> f n"
proof -
  let ?v = "scan_max f xs m"
  from scan_eq_Entry [OF assms]
  have n: "n \<in> set xs" and fn: "f n = ?v"
    and before: "\<forall>x \<in> set (takeWhile (\<lambda>x. x \<noteq> n) xs). f x \<noteq> ?v" by auto
  have le: "\<forall>x \<in> set xs. f x \<le> f n" using scan_max_ge [of _ xs f m] fn by simp
  have "\<forall>x \<in> set (takeWhile (\<lambda>x. x \<noteq> n) xs). f x < f n"
  proof
    fix x assume x: "x \<in> set (takeWhile (\<lambda>x. x \<noteq> n) xs)"
    then have "x \<in> set xs" by (rule set_takeWhileD [THEN conjunct1])
    with le have "f x \<le> f n" by simp
    moreover from before x fn have "f x \<noteq> f n" by simp
    ultimately show "f x < f n" by simp
  qed
  with n le show "first_maximal f xs n" by (simp add: first_maximal_def)
  show "m \<le> f n" using scan_max_ge_init [of m f xs] fn by simp
qed

lemma scan_eq_max_found:
  assumes "x \<in> set xs" and "m \<le> f x"
  shows "\<exists>n. scan_eq f (scan_max f xs m) xs = Entry n"
proof -
  have "scan_max f xs m \<in> f ` set xs"
  proof (rule ccontr)
    assume a: "scan_max f xs m \<notin> f ` set xs"
    with scan_max_cases [of f xs m] have eq: "scan_max f xs m = m" by blast
    from scan_max_ge [OF assms(1), of f m] eq have "f x \<le> m" by simp
    with assms(2) have "f x = m" by simp
    with assms(1) eq a show False by force
  qed
  then have "scan_eq f (scan_max f xs m) xs \<noteq> Head" by (simp add: scan_eq_Head)
  with scan_eq_not_Null [of f "scan_max f xs m" xs] show ?thesis
    by (cases "scan_eq f (scan_max f xs m) xs") auto
qed

lemma scan_eq_max_none:
  assumes "\<forall>x \<in> set xs. f x < m"
  shows "scan_eq f (scan_max f xs m) xs = Head"
proof -
  have "scan_max f xs m = m"
  proof (rule ccontr)
    assume "scan_max f xs m \<noteq> m"
    with scan_max_cases [of f xs m] obtain x where "x \<in> set xs" "f x = scan_max f xs m" by force
    with assms have "scan_max f xs m < m" by auto
    with scan_max_ge_init [of m f xs] show False by simp
  qed
  with assms show ?thesis by (force simp: scan_eq_Head)
qed

lemma scan_eq_Entry_mem: "scan_eq f v xs = Entry n \<Longrightarrow> n \<in> set xs"
  by (induction xs) (auto split: if_splits)

lemma scan_min_le_init: "scan_min f xs m \<le> m"
proof (induction xs arbitrary: m)
  case Nil show ?case by simp
next
  case (Cons x xs)
  have "scan_min f xs (if m > f x then f x else m) \<le> (if m > f x then f x else m)"
    by (rule Cons.IH)
  also have "\<dots> \<le> m" by (simp add: less_imp_le)
  finally show ?case by simp
qed

lemma scan_min_le: "x \<in> set xs \<Longrightarrow> scan_min f xs m \<le> f x"
proof (induction xs arbitrary: m)
  case Nil then show ?case by simp
next
  case (Cons y ys)
  show ?case
  proof (cases "x = y")
    case True
    have "scan_min f ys (if m > f y then f y else m) \<le> (if m > f y then f y else m)"
      by (rule scan_min_le_init)
    also have "\<dots> \<le> f y" by (simp add: not_less)
    finally show ?thesis using True by simp
  next
    case False
    with Cons.prems have "x \<in> set ys" by simp
    then show ?thesis using Cons.IH by simp
  qed
qed

lemma scan_min_cases: "scan_min f xs m = m \<or> scan_min f xs m \<in> f ` set xs"
proof (induction xs arbitrary: m)
  case Nil show ?case by simp
next
  case (Cons y ys)
  from Cons.IH [of "if m > f y then f y else m"] show ?case
    by (auto split: if_splits)
qed

lemma scan_eq_min_found:
  assumes "x \<in> set xs" and "f x \<le> m"
  shows "\<exists>n. scan_eq f (scan_min f xs m) xs = Entry n"
proof -
  have "scan_min f xs m \<in> f ` set xs"
  proof (rule ccontr)
    assume a: "scan_min f xs m \<notin> f ` set xs"
    with scan_min_cases [of f xs m] have eq: "scan_min f xs m = m" by blast
    from scan_min_le [OF assms(1), of f m] eq have "m \<le> f x" by simp
    with assms(2) have "f x = m" by simp
    with assms(1) eq a show False by force
  qed
  then have "scan_eq f (scan_min f xs m) xs \<noteq> Head" by (simp add: scan_eq_Head)
  with scan_eq_not_Null [of f "scan_min f xs m" xs] show ?thesis
    by (cases "scan_eq f (scan_min f xs m) xs") auto
qed

lemma scan_eq_min_first_minimal:
  assumes "scan_eq f (scan_min f xs m) xs = Entry n"
  shows "first_minimal f xs n" and "f n \<le> m"
proof -
  let ?v = "scan_min f xs m"
  from scan_eq_Entry [OF assms]
  have n: "n \<in> set xs" and fn: "f n = ?v"
    and before: "\<forall>x \<in> set (takeWhile (\<lambda>x. x \<noteq> n) xs). f x \<noteq> ?v" by auto
  have le: "\<forall>x \<in> set xs. f n \<le> f x" using scan_min_le [of _ xs f m] fn by simp
  have "\<forall>x \<in> set (takeWhile (\<lambda>x. x \<noteq> n) xs). f n < f x"
  proof
    fix x assume x: "x \<in> set (takeWhile (\<lambda>x. x \<noteq> n) xs)"
    then have "x \<in> set xs" by (rule set_takeWhileD [THEN conjunct1])
    with le have "f n \<le> f x" by simp
    moreover from before x fn have "f x \<noteq> f n" by simp
    ultimately show "f n < f x" by simp
  qed
  with n le show "first_minimal f xs n" by (simp add: first_minimal_def)
  show "f n \<le> m" using scan_min_le_init [of f xs m] fn by simp
qed


section \<open>The Priority acquire is the FCFS acquire\<close>

text \<open>
  C10. For every resource number and every state, \<^verbatim>\<open>prio_acquire\<close> returns what
  \<^verbatim>\<open>fcfs_acquire\<close> returns and leaves the same state. When the resource is free, both
  return true and make the current process the owner, and nothing else changes. When the
  resource has an owner, both return false, set the requester to WAIT and append it to the
  tail of the wait queue, behind every earlier waiter whatever the priorities are; the
  owner stays the owner. With an owner and no current process both dereference NULL, and
  with a resource number outside the table both index past the end of the table.
\<close>

theorem prio_acquire_is_fcfs_acquire:
  "prio_acquire resource_id s = fcfs_acquire resource_id s
   \<and> (resource_in_range resource_id \<and> owner (resources s (nat resource_id)) = None
      \<longrightarrow> prio_acquire resource_id s =
            Inr (True, s\<lparr>resources := (resources s)(nat resource_id :=
                   \<lparr>owner = current s,
                    waitqueue = waitqueue (resources s (nat resource_id))\<rparr>)\<rparr>)
        \<and> fcfs_acquire resource_id s =
            Inr (True, s\<lparr>resources := (resources s)(nat resource_id :=
                   \<lparr>owner = current s,
                    waitqueue = waitqueue (resources s (nat resource_id))\<rparr>)\<rparr>))
   \<and> (resource_in_range resource_id \<and> owner (resources s (nat resource_id)) = Some ow
        \<and> current s = Some c
      \<longrightarrow> prio_acquire resource_id s =
            Inr (False, s\<lparr>procs := (procs s)(c := (procs s c)\<lparr>status := PROCESS_WAIT\<rparr>),
                   resources := (resources s)(nat resource_id :=
                     \<lparr>owner = Some ow,
                      waitqueue = waitqueue (resources s (nat resource_id)) @ [c]\<rparr>)\<rparr>)
        \<and> fcfs_acquire resource_id s =
            Inr (False, s\<lparr>procs := (procs s)(c := (procs s c)\<lparr>status := PROCESS_WAIT\<rparr>),
                   resources := (resources s)(nat resource_id :=
                     \<lparr>owner = Some ow,
                      waitqueue = waitqueue (resources s (nat resource_id)) @ [c]\<rparr>)\<rparr>))
   \<and> (resource_in_range resource_id \<and> owner (resources s (nat resource_id)) = Some ow
        \<and> current s = None
      \<longrightarrow> prio_acquire resource_id s = Inl NullDereference
        \<and> fcfs_acquire resource_id s = Inl NullDereference)
   \<and> (\<not> resource_in_range resource_id
      \<longrightarrow> prio_acquire resource_id s = Inl ResourceOutOfRange
        \<and> fcfs_acquire resource_id s = Inl ResourceOutOfRange)"
proof -
  have eq: "prio_acquire resource_id s = fcfs_acquire resource_id s"
    by (simp add: prio_acquire_def fcfs_acquire_def)
  have free: "resource_in_range resource_id \<and> owner (resources s (nat resource_id)) = None
      \<longrightarrow> prio_acquire resource_id s =
            Inr (True, s\<lparr>resources := (resources s)(nat resource_id :=
                   \<lparr>owner = current s,
                    waitqueue = waitqueue (resources s (nat resource_id))\<rparr>)\<rparr>)"
    by (simp add: prio_acquire_def Let_def set_owner_def resource_owner_upd)
  have owned: "resource_in_range resource_id \<and> owner (resources s (nat resource_id)) = Some ow
        \<and> current s = Some c
      \<longrightarrow> prio_acquire resource_id s =
            Inr (False, s\<lparr>procs := (procs s)(c := (procs s c)\<lparr>status := PROCESS_WAIT\<rparr>),
                   resources := (resources s)(nat resource_id :=
                     \<lparr>owner = Some ow,
                      waitqueue = waitqueue (resources s (nat resource_id)) @ [c]\<rparr>)\<rparr>)"
  proof
    assume a: "resource_in_range resource_id \<and> owner (resources s (nat resource_id)) = Some ow
        \<and> current s = Some c"
    from a show "prio_acquire resource_id s =
            Inr (False, s\<lparr>procs := (procs s)(c := (procs s c)\<lparr>status := PROCESS_WAIT\<rparr>),
                   resources := (resources s)(nat resource_id :=
                     \<lparr>owner = Some ow,
                      waitqueue = waitqueue (resources s (nat resource_id)) @ [c]\<rparr>)\<rparr>)"
      by (simp add: prio_acquire_def Let_def set_waitqueue_def set_status_def list_add_tail_def
          resource_waitqueue_upd)
  qed
  have null: "resource_in_range resource_id \<and> owner (resources s (nat resource_id)) = Some ow
        \<and> current s = None
      \<longrightarrow> prio_acquire resource_id s = Inl NullDereference"
    by (simp add: prio_acquire_def Let_def)
  have range: "\<not> resource_in_range resource_id
      \<longrightarrow> prio_acquire resource_id s = Inl ResourceOutOfRange"
    by (simp add: prio_acquire_def)
  from free owned null range show ?thesis unfolding eq [symmetric] using eq by simp
qed

theorem prio_acquire_is_fcfs_acquire_witness:
  "prio_acquire 1 inherit_sys =
     Inr (True, inherit_sys\<lparr>resources := (resources inherit_sys)
            (1 := \<lparr>owner = Some 2, waitqueue = []\<rparr>)\<rparr>)
   \<and> fcfs_acquire 0 inherit_sys =
     Inr (False, inherit_sys\<lparr>procs := (procs inherit_sys)
            (2 := mk_process PROCESS_WAIT 0 2 5 5 [0]),
          resources := (resources inherit_sys)(0 := \<lparr>owner = Some 1, waitqueue = [2]\<rparr>)\<rparr>)
   \<and> prio (procs (contended_sys\<lparr>procs := (procs contended_sys)
            (4 := mk_process PROCESS_RUNNING 0 2 9 9 [0]), current := Some 4\<rparr>) 3) < 9
   \<and> prio_acquire 0 (contended_sys\<lparr>procs := (procs contended_sys)
            (4 := mk_process PROCESS_RUNNING 0 2 9 9 [0]), current := Some 4\<rparr>) =
     Inr (False, contended_sys\<lparr>procs := (procs contended_sys)
            (4 := mk_process PROCESS_WAIT 0 2 9 9 [0]), current := Some 4,
          resources := (resources contended_sys)
            (0 := \<lparr>owner = Some 1, waitqueue = [2, 3, 4]\<rparr>)\<rparr>)
   \<and> prio_acquire 0 idle_sys = Inr (True, idle_sys)
   \<and> prio_acquire 0 (contended_sys\<lparr>current := None\<rparr>) = Inl NullDereference
   \<and> prio_acquire 32 idle_sys = Inl ResourceOutOfRange
   \<and> fcfs_acquire (- 1) idle_sys = Inl ResourceOutOfRange"
  using prio_acquire_is_fcfs_acquire [of 1 inherit_sys]
    prio_acquire_is_fcfs_acquire [of 0 inherit_sys 1 2]
    prio_acquire_is_fcfs_acquire [of 0 "contended_sys\<lparr>procs := (procs contended_sys)
            (4 := mk_process PROCESS_RUNNING 0 2 9 9 [0]), current := Some 4\<rparr>" 1 4]
    prio_acquire_is_fcfs_acquire [of 0 idle_sys]
    prio_acquire_is_fcfs_acquire [of 0 "contended_sys\<lparr>current := None\<rparr>" 1]
    prio_acquire_is_fcfs_acquire [of 32 idle_sys]
    prio_acquire_is_fcfs_acquire [of "- 1" idle_sys]
  by (simp add: inherit_sys_def contended_sys_def idle_sys_def mk_process_def free_resource_def
      resource_in_range_def NR_RESOURCES_def fun_upd_idem)

section \<open>The FCFS release\<close>

text \<open>
  C8. \<^verbatim>\<open>fcfs_release\<close> stops the program (a failed assertion) when the resource's owner
  is not the current process, and when the first waiter is not in WAIT status. When the
  owner is the current process, it clears the ownership; with an empty wait queue nothing
  else changes; with a non-empty one exactly the head waiter is taken out of the wait
  queue, set to READY and appended to the tail of the ready queue, and the other waiters
  stay where they are.
\<close>

theorem fcfs_release_contract:
  "(resource_in_range rid \<and> owner (resources s (nat rid)) \<noteq> current s
      \<longrightarrow> fcfs_release rid s = Inl AssertionFailed)
   \<and> (resource_in_range rid \<and> owner (resources s (nat rid)) = current s
        \<and> waitqueue (resources s (nat rid)) = w # ws \<and> status (procs s w) \<noteq> PROCESS_WAIT
      \<longrightarrow> fcfs_release rid s = Inl AssertionFailed)
   \<and> (resource_in_range rid \<and> owner (resources s (nat rid)) = current s
        \<and> waitqueue (resources s (nat rid)) = []
      \<longrightarrow> fcfs_release rid s =
            Inr (s\<lparr>resources := (resources s)(nat rid := \<lparr>owner = None, waitqueue = []\<rparr>)\<rparr>))
   \<and> (resource_in_range rid \<and> owner (resources s (nat rid)) = current s
        \<and> waitqueue (resources s (nat rid)) = w # ws \<and> status (procs s w) = PROCESS_WAIT
      \<longrightarrow> fcfs_release rid s =
            Inr (s\<lparr>procs := (procs s)(w := (procs s w)\<lparr>status := PROCESS_READY\<rparr>),
                   readyqueue := readyqueue s @ [w],
                   resources := (resources s)(nat rid := \<lparr>owner = None, waitqueue = ws\<rparr>)\<rparr>))"
  by (simp add: fcfs_release_def update_defs Let_def resource_all_upd resource_owner_upd)

theorem fcfs_release_contract_witness:
  "fcfs_release 1 contended_sys = Inl AssertionFailed
   \<and> fcfs_release 0 (contended_sys\<lparr>procs := (procs contended_sys)
         (2 := mk_process PROCESS_READY 0 2 1 1 [0, 1])\<rparr>) = Inl AssertionFailed
   \<and> fcfs_release 0 idle_sys = Inr idle_sys
   \<and> fcfs_release 0 contended_sys =
       Inr (contended_sys\<lparr>procs := (procs contended_sys)
                (2 := mk_process PROCESS_READY 0 2 1 1 [0, 1]),
              readyqueue := [2],
              resources := (resources contended_sys)(0 := \<lparr>owner = None, waitqueue = [3]\<rparr>)\<rparr>)"
  using fcfs_release_contract [of 1 contended_sys]
    fcfs_release_contract [of 0 "contended_sys\<lparr>procs := (procs contended_sys)
         (2 := mk_process PROCESS_READY 0 2 1 1 [0, 1])\<rparr>" 2 "[3]"]
    fcfs_release_contract [of 0 idle_sys]
    fcfs_release_contract [of 0 contended_sys 2 "[3]"]
  by (simp add: contended_sys_def idle_sys_def mk_process_def free_resource_def update_defs
      fun_upd_idem)

section \<open>The Priority release\<close>

text \<open>
  C2. The claim is that \<^verbatim>\<open>prio_release\<close> wakes the waiter of maximal \<^verbatim>\<open>prio_orig\<close>.
  In the state \<open>contended_sys\<close> process 2 (priority 1) waits ahead of process 3
  (priority 5) for resource 0: the release wakes process 2, the head of the wait queue,
  and leaves process 3, the waiter of maximal priority, in WAIT status on the wait queue.
\<close>

theorem prio_release_wakes_head:
  "prio_orig (procs contended_sys 2) < prio_orig (procs contended_sys 3)
   \<and> prio_release 0 contended_sys =
       Inr (contended_sys\<lparr>procs := (procs contended_sys)
                (2 := mk_process PROCESS_READY 0 2 1 1 [0, 1]),
              readyqueue := [2],
              resources := (resources contended_sys)(0 := \<lparr>owner = None, waitqueue = [3]\<rparr>)\<rparr>)"
  by (simp add: prio_release_def contended_sys_def update_defs mk_process_def Let_def
      free_resource_def)

text \<open>In every state \<^verbatim>\<open>prio_release\<close> does what \<^verbatim>\<open>fcfs_release\<close> does.\<close>

lemma prio_release_as_fcfs_release: "prio_release i s = fcfs_release i s"
  by (simp add: prio_release_def fcfs_release_def Let_def split: list.split)


section \<open>The Priority-Inheritance release and pending acquisitions\<close>

text \<open>
  C1. The claim is that \<^verbatim>\<open>pip_release\<close> leaves a selected waiter blocked while it has
  resources still to acquire. In the state \<open>pending_sys\<close> the only waiter, process 2,
  has two entries in its list of resources to acquire: the release sets it to READY and
  appends it to the ready queue all the same.
\<close>

theorem pip_release_wakes_pending_waiter:
  "resources_to_acquire (procs pending_sys 2) = [0, 1]
   \<and> pip_release 0 pending_sys =
       Inr (pending_sys\<lparr>procs := (procs pending_sys)
                (2 := mk_process PROCESS_READY 0 2 1 1 [0, 1]),
              readyqueue := [2],
              resources := (resources pending_sys)(0 := \<lparr>owner = None, waitqueue = []\<rparr>)\<rparr>)"
  by (simp add: pip_release_def pending_sys_def update_defs mk_process_def Let_def
      free_resource_def)

text \<open>Whenever the release goes through with a non-empty wait queue, a waiter is woken,
  whatever its list of resources to acquire holds.\<close>

lemma pip_release_wakes_always:
  assumes "resource_in_range rid" and "owner (resources t (nat rid)) = Some ow"
    and "current t = Some ow"
    and "\<forall>w \<in> set (waitqueue (resources t (nat rid))). status (procs t w) = PROCESS_WAIT"
    and "waitqueue (resources t (nat rid)) = x # xs"
  shows "\<exists>t' n. pip_release rid t = Inr t' \<and> n \<in> set (x # xs)
     \<and> readyqueue t' = readyqueue t @ [n] \<and> status (procs t' n) = PROCESS_READY
     \<and> waitqueue (resources t' (nat rid)) = remove1 n (x # xs)"
proof -
  let ?s1 = "set_owner (nat rid) None (set_prio ow (prio_orig (procs t ow)) t)"
  let ?f = "\<lambda>p. prio (procs ?s1 p)"
  have "x \<in> set (x # xs)" "?f x \<le> ?f x" by simp_all
  from scan_eq_max_found [of x "x # xs" "?f x" ?f, OF this] obtain n where
    n: "scan_eq ?f (scan_max ?f (x # xs) (?f x)) (x # xs) = Entry n" by blast
  from scan_eq_Entry_mem [OF n] have mem: "n \<in> set (x # xs)" .
  with assms(4,5) have st: "status (procs t n) = PROCESS_WAIT" by auto
  then have st1: "status (procs ?s1 n) = PROCESS_WAIT" by (auto simp: update_defs)
  have "pip_release rid t =
      Inr ((set_status n PROCESS_READY (set_waitqueue (nat rid) (remove1 n (x # xs)) ?s1))
        \<lparr>readyqueue := list_add_tail n (readyqueue ?s1)\<rparr>)"
    using assms(1-3,5) n st1
    by (simp add: pip_release_def Let_def set_status_def set_waitqueue_def
        del: scan_eq.simps scan_max.simps)
  with mem show ?thesis by (simp add: update_defs)
qed

section \<open>Preemption in the priority schedulers\<close>

lemma prio_schedule_running:
  assumes "current s = Some c" and "status (procs s c) \<noteq> PROCESS_WAIT"
    and "age (procs s c) < lifespan (procs s c)"
  shows "prio_schedule s =
     (case scan_eq (\<lambda>p. prio_orig (procs s p))
             (scan_max (\<lambda>p. prio_orig (procs s p)) (readyqueue s) (prio_orig (procs s c)))
             (readyqueue s) of
        Entry n \<Rightarrow> Inr (Some n, s\<lparr>readyqueue := remove1 n (readyqueue s @ [c])\<rparr>)
      | _ \<Rightarrow> Inr (Some c, s))"
proof -
  from assms(3) have ne: "age (procs s c) \<noteq> lifespan (procs s c)" by auto
  show ?thesis
  proof (cases "readyqueue s = []")
    case True
    with assms ne show ?thesis by (simp add: prio_schedule_def)
  next
    case False
    with assms ne show ?thesis by (simp add: prio_schedule_def Let_def list_add_tail_def)
  qed
qed

lemma pip_schedule_running:
  assumes "current s = Some c" and "status (procs s c) \<noteq> PROCESS_WAIT"
    and "age (procs s c) < lifespan (procs s c)"
  shows "pip_schedule s =
     (case scan_eq (\<lambda>p. prio (procs s p))
             (scan_max (\<lambda>p. prio (procs s p)) (readyqueue s) (prio (procs s c)))
             (readyqueue s) of
        Entry n \<Rightarrow> Inr (Some n, s\<lparr>readyqueue := remove1 n (readyqueue s @ [c])\<rparr>)
      | _ \<Rightarrow> Inr (Some c, s))"
proof -
  from assms(3) have ne: "age (procs s c) \<noteq> lifespan (procs s c)" by auto
  show ?thesis
  proof (cases "readyqueue s = []")
    case True
    with assms ne show ?thesis by (simp add: pip_schedule_def)
  next
    case False
    with assms ne show ?thesis by (simp add: pip_schedule_def Let_def list_add_tail_def)
  qed
qed

lemma preempt_shape:
  fixes f :: "nat \<Rightarrow> u32"
  defines "res \<equiv> (\<lambda>q c m s. case scan_eq f (scan_max f q m) q of
        Entry n \<Rightarrow> Inr (Some n, s\<lparr>readyqueue := remove1 n (q @ [c])\<rparr>)
      | _ \<Rightarrow> (Inr (Some c, s) :: fault + (nat option \<times> sys)))"
  shows "((\<forall>x \<in> set q. f x < m) \<longrightarrow> res q c m s = Inr (Some c, s))
    \<and> ((\<exists>x \<in> set q. m \<le> f x) \<longrightarrow>
         (\<exists>n. first_maximal f q n \<and> m \<le> f n
            \<and> res q c m s = Inr (Some n, s\<lparr>readyqueue := remove1 n (q @ [c])\<rparr>)))"
proof (intro conjI impI)
  assume "\<forall>x \<in> set q. f x < m"
  then have "scan_eq f (scan_max f q m) q = Head" by (rule scan_eq_max_none)
  then show "res q c m s = Inr (Some c, s)" by (simp add: res_def)
next
  assume "\<exists>x \<in> set q. m \<le> f x"
  then obtain x where "x \<in> set q" "m \<le> f x" by blast
  then obtain n where n: "scan_eq f (scan_max f q m) q = Entry n"
    using scan_eq_max_found by blast
  from scan_eq_max_first_maximal [OF n] n
  show "\<exists>n. first_maximal f q n \<and> m \<le> f n
            \<and> res q c m s = Inr (Some n, s\<lparr>readyqueue := remove1 n (q @ [c])\<rparr>)"
    by (auto simp: res_def)
qed


text \<open>
  C3, as the claim is stated. With a running process of priority 5 that has lifetime left
  and a ready process of priority 5, the claim has the running process continue. Both
  \<^verbatim>\<open>prio_schedule\<close> and \<^verbatim>\<open>pip_schedule\<close> requeue the running process 1 and
  dispatch the ready process 2.
\<close>

theorem priority_tie_counterexample:
  "current tie_sys = Some 1
   \<and> status (procs tie_sys 1) = PROCESS_RUNNING
   \<and> age (procs tie_sys 1) < lifespan (procs tie_sys 1)
   \<and> readyqueue tie_sys = [2]
   \<and> prio_orig (procs tie_sys 2) = prio_orig (procs tie_sys 1)
   \<and> prio (procs tie_sys 2) = prio (procs tie_sys 1)
   \<and> prio_schedule tie_sys = Inr (Some 2, tie_sys\<lparr>readyqueue := [1]\<rparr>)
   \<and> pip_schedule tie_sys = Inr (Some 2, tie_sys\<lparr>readyqueue := [1]\<rparr>)"
  by (simp add: tie_sys_def mk_process_def prio_schedule_def pip_schedule_def Let_def
      list_add_tail_def)


text \<open>
  C3, amended. Let a process run (it is current and not in WAIT status) with lifetime left.
  If every ready process has a priority strictly below the running one's, the running
  process continues and nothing changes. If some ready process has a priority greater
  than or equal to the running one's, the running process is appended to the ready queue
  and the first ready process of maximal priority is dispatched in its place; so on a tie
  the running process is preempted. \<^verbatim>\<open>prio_schedule\<close> compares \<^verbatim>\<open>prio_orig\<close>,
  \<^verbatim>\<open>pip_schedule\<close> compares \<^verbatim>\<open>prio\<close>.
\<close>

theorem priority_preemption:
  assumes "current s = Some c" and "status (procs s c) \<noteq> PROCESS_WAIT"
    and "age (procs s c) < lifespan (procs s c)"
  shows
    "((\<forall>q \<in> set (readyqueue s). prio_orig (procs s q) < prio_orig (procs s c))
        \<longrightarrow> prio_schedule s = Inr (Some c, s))
     \<and> ((\<exists>q \<in> set (readyqueue s). prio_orig (procs s c) \<le> prio_orig (procs s q))
        \<longrightarrow> (\<exists>n. first_maximal (\<lambda>p. prio_orig (procs s p)) (readyqueue s) n
               \<and> prio_orig (procs s c) \<le> prio_orig (procs s n)
               \<and> prio_schedule s =
                   Inr (Some n, s\<lparr>readyqueue := remove1 n (readyqueue s @ [c])\<rparr>)))
     \<and> ((\<forall>q \<in> set (readyqueue s). prio (procs s q) < prio (procs s c))
        \<longrightarrow> pip_schedule s = Inr (Some c, s))
     \<and> ((\<exists>q \<in> set (readyqueue s). prio (procs s c) \<le> prio (procs s q))
        \<longrightarrow> (\<exists>n. first_maximal (\<lambda>p. prio (procs s p)) (readyqueue s) n
               \<and> prio (procs s c) \<le> prio (procs s n)
               \<and> pip_schedule s =
                   Inr (Some n, s\<lparr>readyqueue := remove1 n (readyqueue s @ [c])\<rparr>)))"
  using preempt_shape [of "readyqueue s" "\<lambda>p. prio_orig (procs s p)" "prio_orig (procs s c)" c s]
    preempt_shape [of "readyqueue s" "\<lambda>p. prio (procs s p)" "prio (procs s c)" c s]
  unfolding prio_schedule_running [OF assms] pip_schedule_running [OF assms]
  by blast


theorem priority_preemption_witness:
  "prio_schedule lower_sys = Inr (Some 1, lower_sys)
   \<and> pip_schedule lower_sys = Inr (Some 1, lower_sys)
   \<and> prio_schedule tie_sys = Inr (Some 2, tie_sys\<lparr>readyqueue := [1]\<rparr>)
   \<and> pip_schedule tie_sys = Inr (Some 2, tie_sys\<lparr>readyqueue := [1]\<rparr>)"
proof -
  have l: "current lower_sys = Some 1" "status (procs lower_sys 1) \<noteq> PROCESS_WAIT"
    "age (procs lower_sys 1) < lifespan (procs lower_sys 1)"
    by (simp_all add: lower_sys_def mk_process_def)
  have t: "current tie_sys = Some 1" "status (procs tie_sys 1) \<noteq> PROCESS_WAIT"
    "age (procs tie_sys 1) < lifespan (procs tie_sys 1)"
    by (simp_all add: tie_sys_def mk_process_def)
  have l2: "\<forall>q \<in> set (readyqueue lower_sys).
      prio_orig (procs lower_sys q) < prio_orig (procs lower_sys 1)"
    "\<forall>q \<in> set (readyqueue lower_sys). prio (procs lower_sys q) < prio (procs lower_sys 1)"
    by (simp_all add: lower_sys_def mk_process_def)
  have t2: "\<exists>q \<in> set (readyqueue tie_sys).
      prio_orig (procs tie_sys 1) \<le> prio_orig (procs tie_sys q)"
    "\<exists>q \<in> set (readyqueue tie_sys). prio (procs tie_sys 1) \<le> prio (procs tie_sys q)"
    by (simp_all add: tie_sys_def mk_process_def)
  have rq: "readyqueue tie_sys = [2]" by (simp add: tie_sys_def)
  from priority_preemption [OF t] t2 obtain n m where
    n: "first_maximal (\<lambda>p. prio_orig (procs tie_sys p)) (readyqueue tie_sys) n"
      "prio_schedule tie_sys =
         Inr (Some n, tie_sys\<lparr>readyqueue := remove1 n (readyqueue tie_sys @ [1])\<rparr>)"
    and m: "first_maximal (\<lambda>p. prio (procs tie_sys p)) (readyqueue tie_sys) m"
      "pip_schedule tie_sys =
         Inr (Some m, tie_sys\<lparr>readyqueue := remove1 m (readyqueue tie_sys @ [1])\<rparr>)"
    by blast
  from n(1) m(1) rq have "n = 2" "m = 2" by (simp_all add: first_maximal_def)
  with n(2) m(2) rq have
    "prio_schedule tie_sys = Inr (Some 2, tie_sys\<lparr>readyqueue := [1]\<rparr>)"
    "pip_schedule tie_sys = Inr (Some 2, tie_sys\<lparr>readyqueue := [1]\<rparr>)"
    by simp_all
  with priority_preemption [OF l] l2 show ?thesis by blast
qed


section \<open>SRTF and long remaining times\<close>

text \<open>
  C5. The claim is that \<^verbatim>\<open>srtf_schedule\<close> returns a process of least remaining time,
  and requeues a running process exactly when a ready process has strictly less time
  left. The scan for the minimum starts from the constant 100000. With a single ready
  process of remaining time 200000 and no running process, no entry matches the minimum,
  and the function unlinks and returns the stray cursor. With a running process of
  remaining time 199999 and an empty ready queue, the running process is requeued and the
  NULL cursor is dereferenced. With a running process of remaining time 150000 and a
  ready process of remaining time 200000, the running process is requeued although no
  ready process has less time left, and the stray cursor is used again.
\<close>

theorem srtf_sentinel:
  "remaining long_ready_sys 1 = 200000
   \<and> srtf_schedule long_ready_sys = Inl StrayPointer
   \<and> readyqueue long_running_sys = []
   \<and> srtf_schedule long_running_sys = Inl NullDereference
   \<and> remaining long_both_sys 1 = 150000 \<and> remaining long_both_sys 2 = 200000
   \<and> srtf_schedule long_both_sys = Inl StrayPointer"
  by (simp add: long_ready_sys_def long_running_sys_def long_both_sys_def srtf_schedule_def
      srtf_pick_next_def remaining_def mk_process_def Let_def list_add_tail_def)


text \<open>
  While no remaining time in the ready queue exceeds 100000, and the running process's
  does not either where it matters, \<^verbatim>\<open>srtf_schedule\<close> dispatches the first ready process
  of least remaining time, and requeues the running process exactly when a ready process
  has strictly less time left.
\<close>

lemma srtf_pick_next_Entry:
  "readyqueue t \<noteq> [] \<Longrightarrow>
     srtf_pick_next (Entry n) t = Inr (Some n, t\<lparr>readyqueue := remove1 n (readyqueue t)\<rparr>)"
  by (simp add: srtf_pick_next_def)

lemma srtf_schedule_within_sentinel:
  assumes bound: "\<forall>p \<in> set (readyqueue s). remaining s p \<le> 100000"
  shows "((current s = None
           \<or> (\<exists>c. current s = Some c
                 \<and> (status (procs s c) = PROCESS_WAIT
                    \<or> \<not> age (procs s c) < lifespan (procs s c))))
          \<and> readyqueue s \<noteq> []
        \<longrightarrow> (\<exists>n. first_minimal (remaining s) (readyqueue s) n
              \<and> srtf_schedule s = Inr (Some n, s\<lparr>readyqueue := remove1 n (readyqueue s)\<rparr>)))
     \<and> (current s = Some c \<and> status (procs s c) \<noteq> PROCESS_WAIT
          \<and> age (procs s c) < lifespan (procs s c) \<and> remaining s c \<le> 100000
          \<and> (\<forall>q \<in> set (readyqueue s). remaining s c \<le> remaining s q)
        \<longrightarrow> srtf_schedule s = Inr (Some c, s))
     \<and> (current s = Some c \<and> status (procs s c) \<noteq> PROCESS_WAIT
          \<and> age (procs s c) < lifespan (procs s c)
          \<and> (\<exists>q \<in> set (readyqueue s). remaining s q < remaining s c)
        \<longrightarrow> (\<exists>n. first_minimal (remaining s) (readyqueue s) n
              \<and> remaining s n < remaining s c
              \<and> srtf_schedule s =
                  Inr (Some n, s\<lparr>readyqueue := remove1 n (readyqueue s @ [c])\<rparr>)))"
proof (intro conjI impI)
  let ?minv = "scan_min (remaining s) (readyqueue s) 100000"
  let ?next = "scan_eq (remaining s) ?minv (readyqueue s)"
  have found: "\<exists>n. ?next = Entry n" if "readyqueue s \<noteq> []"
  proof -
    from that obtain x where x: "x \<in> set (readyqueue s)" by (cases "readyqueue s") auto
    with bound have "remaining s x \<le> 100000" by simp
    with x show ?thesis by (rule scan_eq_min_found)
  qed
  {
    assume a: "(current s = None
           \<or> (\<exists>c. current s = Some c
                 \<and> (status (procs s c) = PROCESS_WAIT
                    \<or> \<not> age (procs s c) < lifespan (procs s c))))
          \<and> readyqueue s \<noteq> []"
    then have ne: "readyqueue s \<noteq> []" by simp
    from found [OF ne] obtain n where n: "?next = Entry n" by blast
    from a ne n have "srtf_schedule s = srtf_pick_next (Entry n) s"
      by (auto simp: srtf_schedule_def Let_def)
    with ne have "srtf_schedule s = Inr (Some n, s\<lparr>readyqueue := remove1 n (readyqueue s)\<rparr>)"
      by (simp add: srtf_pick_next_Entry)
    with scan_eq_min_first_minimal(1) [OF n]
    show "\<exists>n. first_minimal (remaining s) (readyqueue s) n
              \<and> srtf_schedule s = Inr (Some n, s\<lparr>readyqueue := remove1 n (readyqueue s)\<rparr>)"
      by blast
  }
  {
    assume a: "current s = Some c \<and> status (procs s c) \<noteq> PROCESS_WAIT
          \<and> age (procs s c) < lifespan (procs s c) \<and> remaining s c \<le> 100000
          \<and> (\<forall>q \<in> set (readyqueue s). remaining s c \<le> remaining s q)"
    have le: "remaining s c \<le> (if readyqueue s \<noteq> [] then ?minv else 100000)"
    proof (cases "readyqueue s = []")
      case True with a show ?thesis by simp
    next
      case False
      from scan_min_cases [of "remaining s" "readyqueue s" 100000] a False show ?thesis
        by auto
    qed
    then have "\<not> lifespan (procs s c) - age (procs s c)
        > (if readyqueue s \<noteq> [] then ?minv else 100000)"
      by (simp add: remaining_def not_less)
    with a show "srtf_schedule s = Inr (Some c, s)"
      by (simp add: srtf_schedule_def Let_def)
  }
  {
    assume a: "current s = Some c \<and> status (procs s c) \<noteq> PROCESS_WAIT
          \<and> age (procs s c) < lifespan (procs s c)
          \<and> (\<exists>q \<in> set (readyqueue s). remaining s q < remaining s c)"
    then obtain q where q: "q \<in> set (readyqueue s)" "remaining s q < remaining s c" by blast
    then have ne: "readyqueue s \<noteq> []" by auto
    from found [OF ne] obtain n where n: "?next = Entry n" by blast
    from scan_eq_min_first_minimal(1) [OF n] have fm: "first_minimal (remaining s) (readyqueue s) n" .
    with q(1) have "remaining s n \<le> remaining s q" by (simp add: first_minimal_def)
    with q(2) have lt: "remaining s n < remaining s c" by simp
    from scan_eq_Entry [OF n] have "remaining s n = ?minv" by simp
    with lt have gt: "lifespan (procs s c) - age (procs s c) > ?minv" by (simp add: remaining_def)
    from a ne n gt have "srtf_schedule s =
        srtf_pick_next (Entry n) (s\<lparr>readyqueue := list_add_tail c (readyqueue s)\<rparr>)"
      by (simp add: srtf_schedule_def Let_def)
    then have "srtf_schedule s =
        Inr (Some n, s\<lparr>readyqueue := remove1 n (readyqueue s @ [c])\<rparr>)"
      by (simp add: srtf_pick_next_Entry list_add_tail_def)
    with fm lt show "\<exists>n. first_minimal (remaining s) (readyqueue s) n
              \<and> remaining s n < remaining s c
              \<and> srtf_schedule s =
                  Inr (Some n, s\<lparr>readyqueue := remove1 n (readyqueue s @ [c])\<rparr>)"
      by blast
  }
qed

section \<open>Round-robin\<close>

text \<open>
  C7. Whenever the ready queue is not empty, \<^verbatim>\<open>rr_schedule\<close> dispatches its head; a
  running process (current, not in WAIT status) that has not finished is appended to the
  tail of the ready queue first, and a finished or blocked one, or none, is not requeued.
  With P1 (lifespan 3) and P2 (lifespan 2) ready in this order, the first tick dispatches
  P1 and leaves P1 running with the ready queue [P2]; the four ticks after it dispatch P2,
  P1, P2, P1; after the fifth tick both processes have reached their lifespan, and the
  next call of the scheduler finds nothing to run.
\<close>

theorem round_robin_quantum:
  "(current s = Some c \<and> status (procs s c) \<noteq> PROCESS_WAIT
      \<and> age (procs s c) \<noteq> lifespan (procs s c) \<and> readyqueue s = h # t
      \<longrightarrow> rr_schedule s = Inr (Some h, s\<lparr>readyqueue := t @ [c]\<rparr>))
   \<and> ((current s = None
         \<or> (\<exists>c. current s = Some c
               \<and> (status (procs s c) = PROCESS_WAIT \<or> age (procs s c) = lifespan (procs s c))))
        \<and> readyqueue s = h # t
      \<longrightarrow> rr_schedule s = Inr (Some h, s\<lparr>readyqueue := t\<rparr>))
   \<and> run_ticks rr_schedule 1 rr_start_sys = Inr ([Some 1], rr_running_sys)
   \<and> run_ticks rr_schedule 4 rr_running_sys = Inr ([Some 2, Some 1, Some 2, Some 1], rr_done_sys)
   \<and> run_ticks rr_schedule 5 rr_start_sys =
       Inr ([Some 1, Some 2, Some 1, Some 2, Some 1], rr_done_sys)
   \<and> age (procs rr_done_sys 1) = lifespan (procs rr_done_sys 1)
   \<and> age (procs rr_done_sys 2) = lifespan (procs rr_done_sys 2)
   \<and> rr_schedule rr_done_sys = Inr (None, rr_done_sys)"
proof -
  have a: "current s = Some c \<and> status (procs s c) \<noteq> PROCESS_WAIT
      \<and> age (procs s c) \<noteq> lifespan (procs s c) \<and> readyqueue s = h # t
      \<longrightarrow> rr_schedule s = Inr (Some h, s\<lparr>readyqueue := t @ [c]\<rparr>)"
    by (simp add: rr_schedule_def rr_pick_next_def list_add_tail_def)
  have b: "(current s = None
         \<or> (\<exists>c. current s = Some c
               \<and> (status (procs s c) = PROCESS_WAIT \<or> age (procs s c) = lifespan (procs s c))))
        \<and> readyqueue s = h # t
      \<longrightarrow> rr_schedule s = Inr (Some h, s\<lparr>readyqueue := t\<rparr>)"
    by (auto simp: rr_schedule_def rr_pick_next_def)
  have c1: "run_ticks rr_schedule 1 rr_start_sys = Inr ([Some 1], rr_running_sys)"
    by (simp add: rr_start_sys_def rr_running_sys_def tick_def rr_schedule_def
      rr_pick_next_def dispatch_def mk_process_def list_add_tail_def fun_upd_twist)
  have c4: "run_ticks rr_schedule 4 rr_running_sys =
      Inr ([Some 2, Some 1, Some 2, Some 1], rr_done_sys)"
    by (simp add: eval_nat_numeral rr_running_sys_def rr_done_sys_def tick_def rr_schedule_def
      rr_pick_next_def dispatch_def mk_process_def list_add_tail_def fun_upd_twist)
  have c5: "run_ticks rr_schedule 5 rr_start_sys =
       Inr ([Some 1, Some 2, Some 1, Some 2, Some 1], rr_done_sys)"
    by (simp add: eval_nat_numeral rr_start_sys_def rr_done_sys_def tick_def rr_schedule_def
      rr_pick_next_def dispatch_def mk_process_def list_add_tail_def fun_upd_twist)
  have d: "age (procs rr_done_sys 1) = lifespan (procs rr_done_sys 1)"
    "age (procs rr_done_sys 2) = lifespan (procs rr_done_sys 2)"
    "rr_schedule rr_done_sys = Inr (None, rr_done_sys)"
    by (simp_all add: rr_done_sys_def mk_process_def rr_schedule_def rr_pick_next_def)
  from a b c1 c4 c5 d show ?thesis by blast
qed

theorem round_robin_quantum_witness:
  "rr_schedule tie_sys = Inr (Some 2, tie_sys\<lparr>readyqueue := [1]\<rparr>)
   \<and> rr_schedule rr_start_sys = Inr (Some 1, rr_start_sys\<lparr>readyqueue := [2]\<rparr>)"
  using round_robin_quantum [of tie_sys 1 2 "[]"] round_robin_quantum [of rr_start_sys _ 1 "[2]"]
  by (simp add: tie_sys_def rr_start_sys_def mk_process_def)

section \<open>Priority inheritance\<close>

lemma pip_acquire_owned:
  assumes "resource_in_range rid" and "owner (resources s (nat rid)) = Some ow"
    and "current s = Some c"
  shows "\<exists>s'. pip_acquire rid s = Inr (False, s')
     \<and> prio (procs s' ow) =
         (if prio (procs s ow) < prio (procs s c) then prio (procs s c) else prio (procs s ow))
     \<and> (\<forall>p. p \<noteq> ow \<longrightarrow> prio (procs s' p) = prio (procs s p))
     \<and> (\<forall>p. prio_orig (procs s' p) = prio_orig (procs s p))
     \<and> status (procs s' c) = PROCESS_WAIT
     \<and> (\<forall>p. p \<noteq> c \<longrightarrow> status (procs s' p) = status (procs s p))
     \<and> waitqueue (resources s' (nat rid)) = waitqueue (resources s (nat rid)) @ [c]
     \<and> owner (resources s' (nat rid)) = Some ow
     \<and> (\<forall>j. j \<noteq> nat rid \<longrightarrow> resources s' j = resources s j)
     \<and> readyqueue s' = readyqueue s \<and> current s' = current s"
  using assms by (simp add: pip_acquire_def Let_def update_defs)

lemma pip_acquire_free:
  assumes "resource_in_range rid" and "owner (resources s (nat rid)) = None"
  shows "\<exists>s'. pip_acquire rid s = Inr (True, s') \<and> procs s' = procs s
     \<and> owner (resources s' (nat rid)) = current s"
  using assms by (simp add: pip_acquire_def Let_def update_defs)

lemma pip_release_owner:
  assumes "resource_in_range rid" and "owner (resources t (nat rid)) = Some ow"
    and "current t = Some ow"
    and "\<forall>w \<in> set (waitqueue (resources t (nat rid))). status (procs t w) = PROCESS_WAIT"
  shows "\<exists>t'. pip_release rid t = Inr t'
     \<and> prio (procs t' ow) = prio_orig (procs t ow)
     \<and> prio_orig (procs t' ow) = prio_orig (procs t ow)
     \<and> owner (resources t' (nat rid)) = None"
proof (cases "waitqueue (resources t (nat rid))")
  case Nil
  with assms show ?thesis by (simp add: pip_release_def Let_def update_defs)
next
  case (Cons x xs)
  let ?s1 = "set_owner (nat rid) None (set_prio ow (prio_orig (procs t ow)) t)"
  let ?f = "\<lambda>p. prio (procs ?s1 p)"
  have "x \<in> set (x # xs)" "?f x \<le> ?f x" by simp_all
  from scan_eq_max_found [of x "x # xs" "?f x" ?f, OF this] obtain n where
    n: "scan_eq ?f (scan_max ?f (x # xs) (?f x)) (x # xs) = Entry n" by blast
  from scan_eq_Entry [OF n] have "n \<in> set (x # xs)" by simp
  with assms(4) Cons have st: "status (procs t n) = PROCESS_WAIT" by auto
  then have st1: "status (procs ?s1 n) = PROCESS_WAIT" by (auto simp: update_defs)
  have "pip_release rid t =
      Inr ((set_status n PROCESS_READY (set_waitqueue (nat rid) (remove1 n (x # xs)) ?s1))
        \<lparr>readyqueue := list_add_tail n (readyqueue ?s1)\<rparr>)"
    using assms(1-3) Cons n st1
    by (simp add: pip_release_def Let_def set_status_def set_waitqueue_def
        del: scan_eq.simps scan_max.simps)
  then show ?thesis by (simp add: update_defs)
qed



text \<open>
  C4. When the current process requests a resource that has an owner, \<^verbatim>\<open>pip_acquire\<close>
  returns false, sets the requester to WAIT and appends it to the tail of the resource's
  wait queue; the owner's priority becomes the requester's if the requester's is strictly
  higher and stays as it is otherwise, and no other priority changes. When the resource is
  free, no process changes at all. When later the owner, as the current process, calls
  \<^verbatim>\<open>pip_release\<close> for the resource (its waiters being in WAIT status, as the assertion
  demands), the release goes through and the owner's priority is its original priority
  again.
\<close>

theorem pip_inheritance:
  "(resource_in_range rid \<and> owner (resources s (nat rid)) = Some ow \<and> current s = Some c
      \<longrightarrow> (\<exists>s'. pip_acquire rid s = Inr (False, s')
            \<and> prio (procs s' ow) =
                (if prio (procs s ow) < prio (procs s c) then prio (procs s c)
                 else prio (procs s ow))
            \<and> (\<forall>p. p \<noteq> ow \<longrightarrow> prio (procs s' p) = prio (procs s p))
            \<and> (\<forall>p. prio_orig (procs s' p) = prio_orig (procs s p))
            \<and> status (procs s' c) = PROCESS_WAIT
            \<and> (\<forall>p. p \<noteq> c \<longrightarrow> status (procs s' p) = status (procs s p))
            \<and> waitqueue (resources s' (nat rid)) = waitqueue (resources s (nat rid)) @ [c]
            \<and> owner (resources s' (nat rid)) = Some ow
            \<and> (\<forall>j. j \<noteq> nat rid \<longrightarrow> resources s' j = resources s j)
            \<and> readyqueue s' = readyqueue s \<and> current s' = current s))
   \<and> (resource_in_range rid \<and> owner (resources s (nat rid)) = None
      \<longrightarrow> (\<exists>s'. pip_acquire rid s = Inr (True, s') \<and> procs s' = procs s
            \<and> owner (resources s' (nat rid)) = current s))
   \<and> (resource_in_range rid \<and> owner (resources t (nat rid)) = Some ow \<and> current t = Some ow
        \<and> (\<forall>w \<in> set (waitqueue (resources t (nat rid))). status (procs t w) = PROCESS_WAIT)
      \<longrightarrow> (\<exists>t'. pip_release rid t = Inr t'
            \<and> prio (procs t' ow) = prio_orig (procs t ow)
            \<and> prio_orig (procs t' ow) = prio_orig (procs t ow)
            \<and> owner (resources t' (nat rid)) = None))"
  using pip_acquire_owned [of rid s ow c] pip_acquire_free [of rid s]
    pip_release_owner [of rid t ow]
  by blast

theorem pip_inheritance_witness:
  "resource_in_range 0 \<and> owner (resources inherit_sys (nat 0)) = Some 1
   \<and> current inherit_sys = Some 2
   \<and> prio (procs inherit_sys 1) = 1 \<and> prio (procs inherit_sys 2) = 5
   \<and> pip_acquire 0 inherit_sys = Inr (False, inherit_blocked_sys)
   \<and> prio (procs inherit_blocked_sys 1) = 5
   \<and> tick pip_schedule inherit_blocked_sys = Inr (Some 1, inherit_owner_sys)
   \<and> owner (resources inherit_owner_sys (nat 0)) = Some 1
   \<and> current inherit_owner_sys = Some 1
   \<and> pip_release 0 inherit_owner_sys = Inr inherit_released_sys
   \<and> prio (procs inherit_released_sys 1) = 1
   \<and> status (procs inherit_released_sys 2) = PROCESS_READY"
proof -
  have h: "resource_in_range 0" "owner (resources inherit_sys (nat 0)) = Some 1"
    "current inherit_sys = Some 2"
    "prio (procs inherit_sys 1) = 1" "prio (procs inherit_sys 2) = 5"
    by (simp_all add: inherit_sys_def mk_process_def update_defs)
  have a: "pip_acquire 0 inherit_sys = Inr (False, inherit_blocked_sys)"
    by (simp add: pip_acquire_def inherit_sys_def inherit_blocked_sys_def mk_process_def
        update_defs Let_def fun_upd_twist)
  have b: "tick pip_schedule inherit_blocked_sys = Inr (Some 1, inherit_owner_sys)"
    by (simp add: tick_def pip_schedule_def pip_pick_next_def dispatch_def
        inherit_blocked_sys_def inherit_owner_sys_def mk_process_def Let_def fun_upd_twist)
  have g: "owner (resources inherit_owner_sys (nat 0)) = Some 1"
    "current inherit_owner_sys = Some 1"
    "\<forall>w \<in> set (waitqueue (resources inherit_owner_sys (nat 0))).
        status (procs inherit_owner_sys w) = PROCESS_WAIT"
    by (simp_all add: inherit_owner_sys_def mk_process_def)
  have r: "pip_release 0 inherit_owner_sys = Inr inherit_released_sys"
    by (simp add: pip_release_def inherit_owner_sys_def inherit_released_sys_def mk_process_def
        update_defs Let_def free_resource_def fun_upd_twist)
  from pip_inheritance [of 0 inherit_sys 1 2 inherit_owner_sys] h a g r
  have "prio (procs inherit_blocked_sys 1) = 5"
    "prio (procs inherit_released_sys 1) = prio_orig (procs inherit_owner_sys 1)"
    by auto
  moreover have "prio_orig (procs inherit_owner_sys 1) = 1"
    "status (procs inherit_released_sys 2) = PROCESS_READY"
    by (simp_all add: inherit_owner_sys_def inherit_released_sys_def mk_process_def)
  ultimately show ?thesis using h a b g r by simp
qed

section \<open>The current priority never falls below the original one\<close>

lemma procs_set_owner [simp]: "procs (set_owner i p s) = procs s"
  by (simp add: set_owner_def)

lemma procs_set_waitqueue [simp]: "procs (set_waitqueue i q s) = procs s"
  by (simp add: set_waitqueue_def)

lemma prio_set_status [simp]:
  "prio (procs (set_status p v s) x) = prio (procs s x)"
  "prio_orig (procs (set_status p v s) x) = prio_orig (procs s x)"
  by (simp_all add: set_status_def)

lemma prio_inv_same:
  assumes "prio_inv s"
    and "\<And>p. prio (procs s' p) = prio (procs s p)"
    and "\<And>p. prio_orig (procs s' p) = prio_orig (procs s p)"
  shows "prio_inv s'"
  using assms by (simp add: prio_inv_def)

lemma fcfs_acquire_prios:
  "fcfs_acquire i s = Inr (b, s') \<Longrightarrow>
     prio (procs s' p) = prio (procs s p) \<and> prio_orig (procs s' p) = prio_orig (procs s p)"
  by (auto simp: fcfs_acquire_def Let_def split: if_splits option.splits)

lemma fcfs_release_prios:
  "fcfs_release i s = Inr s' \<Longrightarrow>
     prio (procs s' p) = prio (procs s p) \<and> prio_orig (procs s' p) = prio_orig (procs s p)"
  by (auto simp: fcfs_release_def Let_def split: if_splits list.splits)

lemma prio_release_prios:
  "prio_release i s = Inr s' \<Longrightarrow>
     prio (procs s' p) = prio (procs s p) \<and> prio_orig (procs s' p) = prio_orig (procs s p)"
  by (auto simp: prio_release_def Let_def split: if_splits list.splits)

lemma list_del_init_Inr: "list_del_init x q = Inr q' \<Longrightarrow> \<exists>n. x = Entry n \<and> q' = remove1 n q"
  by (cases x) auto

lemma fifo_schedule_procs: "fifo_schedule s = Inr (r, s') \<Longrightarrow> procs s' = procs s"
  by (auto simp: fifo_schedule_def fifo_pick_next_def split: if_splits option.splits list.splits)

lemma sjf_schedule_procs: "sjf_schedule s = Inr (r, s') \<Longrightarrow> procs s' = procs s"
  by (auto simp: sjf_schedule_def sjf_pick_next_def Let_def
      split: if_splits option.splits sum.splits)

lemma srtf_pick_next_procs: "srtf_pick_next x s = Inr (r, s') \<Longrightarrow> procs s' = procs s"
  by (auto simp: srtf_pick_next_def split: if_splits sum.splits cursor.splits)

lemma srtf_schedule_procs: "srtf_schedule s = Inr (r, s') \<Longrightarrow> procs s' = procs s"
  by (auto simp: srtf_schedule_def Let_def dest!: srtf_pick_next_procs
      split: if_splits option.splits)

lemma rr_schedule_procs: "rr_schedule s = Inr (r, s') \<Longrightarrow> procs s' = procs s"
  by (auto simp: rr_schedule_def rr_pick_next_def split: if_splits option.splits list.splits)

lemma prio_schedule_procs: "prio_schedule s = Inr (r, s') \<Longrightarrow> procs s' = procs s"
  by (auto simp: prio_schedule_def prio_pick_next_def Let_def
      split: if_splits option.splits list.splits sum.splits cursor.splits)

lemma pip_schedule_procs: "pip_schedule s = Inr (r, s') \<Longrightarrow> procs s' = procs s"
  by (auto simp: pip_schedule_def pip_pick_next_def Let_def
      split: if_splits option.splits list.splits sum.splits cursor.splits)

lemma dispatch_prios:
  "prio (procs (dispatch r s) p) = prio (procs s p)"
  "prio_orig (procs (dispatch r s) p) = prio_orig (procs s p)"
  by (simp_all add: dispatch_def split: option.splits)

lemma tick_prios:
  assumes "\<And>r s'. schedule s = Inr (r, s') \<Longrightarrow> procs s' = procs s"
    and "after_tick (tick schedule s) = Inr s''"
  shows "prio (procs s'' p) = prio (procs s p) \<and> prio_orig (procs s'' p) = prio_orig (procs s p)"
proof (cases "schedule s")
  case (Inl e)
  with assms(2) show ?thesis by (simp add: tick_def after_tick_def)
next
  case (Inr x)
  obtain r s' where x: "x = (r, s')" by (cases x)
  with Inr assms(1) have "procs s' = procs s" by simp
  moreover from Inr x assms(2) have "s'' = dispatch r s'" by (simp add: tick_def after_tick_def)
  ultimately show ?thesis by (simp add: dispatch_prios)
qed


lemma pip_acquire_prios:
  assumes "pip_acquire i s = Inr (b, s')"
  shows "prio (procs s p) \<le> prio (procs s' p)"
    and "prio_orig (procs s' p) = prio_orig (procs s p)"
    and "prio (procs s' p) \<noteq> prio (procs s p) \<Longrightarrow>
           owner (resources s (nat i)) = Some p
           \<and> (\<exists>c. current s = Some c \<and> prio (procs s p) < prio (procs s c)
                  \<and> prio (procs s' p) = prio (procs s c))"
  using assms
  by (auto simp: pip_acquire_def Let_def set_prio_def set_status_def less_imp_le
      split: if_splits option.splits)

lemma pip_release_prios:
  assumes "pip_release i s = Inr s'"
  shows "\<exists>c. current s = Some c \<and> owner (resources s (nat i)) = Some c
           \<and> prio (procs s' c) = prio_orig (procs s c)
           \<and> (\<forall>p. p \<noteq> c \<longrightarrow> prio (procs s' p) = prio (procs s p))
           \<and> (\<forall>p. prio_orig (procs s' p) = prio_orig (procs s p))"
  using assms
  by (auto simp: pip_release_def Let_def set_prio_def
      split: if_splits option.splits list.splits cursor.splits)

lemma exec_prio_inv:
  assumes "prio_inv s" and "exec x s = Inr s'"
  shows "prio_inv s'"
proof (cases x)
  case (Acquire_fcfs i)
  with assms(2) obtain b where "fcfs_acquire i s = Inr (b, s')"
    by (auto simp: after_acquire_def split: sum.splits)
  from fcfs_acquire_prios [OF this] assms(1) show ?thesis by (simp add: prio_inv_def)
next
  case (Release_fcfs i)
  with assms(2) have "fcfs_release i s = Inr s'" by simp
  from fcfs_release_prios [OF this] assms(1) show ?thesis by (simp add: prio_inv_def)
next
  case (Acquire_prio i)
  with assms(2) obtain b where "fcfs_acquire i s = Inr (b, s')"
    by (auto simp: after_acquire_def prio_acquire_def fcfs_acquire_def split: sum.splits)
  from fcfs_acquire_prios [OF this] assms(1) show ?thesis by (simp add: prio_inv_def)
next
  case (Release_prio i)
  with assms(2) have "prio_release i s = Inr s'" by simp
  from prio_release_prios [OF this] assms(1) show ?thesis by (simp add: prio_inv_def)
next
  case (Acquire_pip i)
  with assms(2) obtain b where a: "pip_acquire i s = Inr (b, s')"
    by (auto simp: after_acquire_def split: sum.splits)
  show ?thesis unfolding prio_inv_def
  proof
    fix p
    from assms(1) have "prio_orig (procs s p) \<le> prio (procs s p)" by (simp add: prio_inv_def)
    also have "\<dots> \<le> prio (procs s' p)" by (rule pip_acquire_prios(1) [OF a])
    finally show "prio_orig (procs s' p) \<le> prio (procs s' p)"
      by (simp add: pip_acquire_prios(2) [OF a])
  qed
next
  case (Release_pip i)
  with assms(2) have "pip_release i s = Inr s'" by simp
  from pip_release_prios [OF this] obtain c where
    c: "prio (procs s' c) = prio_orig (procs s c)"
      "\<forall>p. p \<noteq> c \<longrightarrow> prio (procs s' p) = prio (procs s p)"
      "\<forall>p. prio_orig (procs s' p) = prio_orig (procs s p)" by blast
  show ?thesis unfolding prio_inv_def
  proof
    fix p
    show "prio_orig (procs s' p) \<le> prio (procs s' p)"
    proof (cases "p = c")
      case True with c show ?thesis by simp
    next
      case False
      with c assms(1) show ?thesis by (simp add: prio_inv_def)
    qed
  qed
next
  case Schedule_fifo
  with assms(2) tick_prios [of fifo_schedule s s'] fifo_schedule_procs assms(1)
  show ?thesis by (simp add: prio_inv_def)
next
  case Schedule_sjf
  with assms(2) tick_prios [of sjf_schedule s s'] sjf_schedule_procs assms(1)
  show ?thesis by (simp add: prio_inv_def)
next
  case Schedule_srtf
  with assms(2) tick_prios [of srtf_schedule s s'] srtf_schedule_procs assms(1)
  show ?thesis by (simp add: prio_inv_def)
next
  case Schedule_rr
  with assms(2) tick_prios [of rr_schedule s s'] rr_schedule_procs assms(1)
  show ?thesis by (simp add: prio_inv_def)
next
  case Schedule_prio
  with assms(2) tick_prios [of prio_schedule s s'] prio_schedule_procs assms(1)
  show ?thesis by (simp add: prio_inv_def)
next
  case Schedule_pip
  with assms(2) tick_prios [of pip_schedule s s'] pip_schedule_procs assms(1)
  show ?thesis by (simp add: prio_inv_def)
qed

lemma run_ops_prio_inv:
  "prio_inv s \<Longrightarrow> run_ops xs s = Inr s' \<Longrightarrow> prio_inv s'"
proof (induction xs arbitrary: s)
  case Nil then show ?case by simp
next
  case (Cons x xs)
  from Cons.prems(2) obtain s1 where s1: "exec x s = Inr s1" "run_ops xs s1 = Inr s'"
    by (auto split: sum.splits)
  from exec_prio_inv [OF Cons.prems(1) s1(1)] s1(2) show ?case by (rule Cons.IH)
qed



text \<open>
  C9. If no process has a priority below its original priority, then the same holds after
  every sequence of core operations that runs without a fault (the acquire and release
  functions of the three variants and the six schedulers, each scheduler call followed by
  the driver's update). \<^verbatim>\<open>pip_acquire\<close> lowers no priority and changes no original
  priority; the only priority it can change is the owner's, to the strictly higher
  priority of the requester. \<^verbatim>\<open>pip_release\<close> sets the priority of the releasing
  process to its original priority and changes no other priority.
\<close>

theorem prio_never_below_prio_orig:
  "(prio_inv s \<and> run_ops xs s = Inr s' \<longrightarrow> prio_inv s')
   \<and> (pip_acquire i s = Inr (b, s1)
      \<longrightarrow> (\<forall>p. prio (procs s p) \<le> prio (procs s1 p))
        \<and> (\<forall>p. prio_orig (procs s1 p) = prio_orig (procs s p))
        \<and> (\<forall>p. prio (procs s1 p) \<noteq> prio (procs s p)
              \<longrightarrow> owner (resources s (nat i)) = Some p
                \<and> (\<exists>c. current s = Some c \<and> prio (procs s p) < prio (procs s c)
                       \<and> prio (procs s1 p) = prio (procs s c))))
   \<and> (pip_release i s = Inr s2
      \<longrightarrow> (\<exists>c. current s = Some c \<and> owner (resources s (nat i)) = Some c
              \<and> prio (procs s2 c) = prio_orig (procs s c)
              \<and> (\<forall>p. p \<noteq> c \<longrightarrow> prio (procs s2 p) = prio (procs s p))
              \<and> (\<forall>p. prio_orig (procs s2 p) = prio_orig (procs s p))))"
proof (intro conjI impI)
  assume "prio_inv s \<and> run_ops xs s = Inr s'"
  then show "prio_inv s'" using run_ops_prio_inv by blast
next
  assume a: "pip_acquire i s = Inr (b, s1)"
  show "\<forall>p. prio (procs s p) \<le> prio (procs s1 p)"
    using pip_acquire_prios(1) [OF a] by blast
  show "\<forall>p. prio_orig (procs s1 p) = prio_orig (procs s p)"
    using pip_acquire_prios(2) [OF a] by blast
  show "\<forall>p. prio (procs s1 p) \<noteq> prio (procs s p)
              \<longrightarrow> owner (resources s (nat i)) = Some p
                \<and> (\<exists>c. current s = Some c \<and> prio (procs s p) < prio (procs s c)
                       \<and> prio (procs s1 p) = prio (procs s c))"
    using pip_acquire_prios(3) [OF a] by blast
next
  assume "pip_release i s = Inr s2"
  then show "\<exists>c. current s = Some c \<and> owner (resources s (nat i)) = Some c
              \<and> prio (procs s2 c) = prio_orig (procs s c)
              \<and> (\<forall>p. p \<noteq> c \<longrightarrow> prio (procs s2 p) = prio (procs s p))
              \<and> (\<forall>p. prio_orig (procs s2 p) = prio_orig (procs s p))"
    by (rule pip_release_prios)
qed

theorem prio_never_below_prio_orig_witness:
  "prio_inv inherit_sys
   \<and> run_ops [Acquire_pip 0, Schedule_pip, Release_pip 0] inherit_sys = Inr inherit_released_sys
   \<and> prio_inv inherit_released_sys
   \<and> pip_acquire 0 inherit_sys = Inr (False, inherit_blocked_sys)
   \<and> prio (procs inherit_sys 1) < prio (procs inherit_blocked_sys 1)
   \<and> pip_release 0 inherit_owner_sys = Inr inherit_released_sys
   \<and> prio (procs inherit_released_sys 1) = prio_orig (procs inherit_owner_sys 1)"
proof -
  have i: "prio_inv inherit_sys" by (simp add: prio_inv_def inherit_sys_def mk_process_def)
  have a: "pip_acquire 0 inherit_sys = Inr (False, inherit_blocked_sys)"
    by (simp add: pip_acquire_def inherit_sys_def inherit_blocked_sys_def mk_process_def
        update_defs Let_def fun_upd_twist)
  have b: "tick pip_schedule inherit_blocked_sys = Inr (Some 1, inherit_owner_sys)"
    by (simp add: tick_def pip_schedule_def pip_pick_next_def dispatch_def
        inherit_blocked_sys_def inherit_owner_sys_def mk_process_def Let_def fun_upd_twist)
  have r: "pip_release 0 inherit_owner_sys = Inr inherit_released_sys"
    by (simp add: pip_release_def inherit_owner_sys_def inherit_released_sys_def mk_process_def
        update_defs Let_def free_resource_def fun_upd_twist)
  have run: "run_ops [Acquire_pip 0, Schedule_pip, Release_pip 0] inherit_sys
      = Inr inherit_released_sys"
    by (simp add: a b r after_acquire_def after_tick_def)
  have lt: "prio (procs inherit_sys 1) < prio (procs inherit_blocked_sys 1)"
    by (simp add: inherit_sys_def inherit_blocked_sys_def mk_process_def)
  have c: "current inherit_owner_sys = Some 1" by (simp add: inherit_owner_sys_def)
  from prio_never_below_prio_orig
    [of inherit_sys "[Acquire_pip 0, Schedule_pip, Release_pip 0]" inherit_released_sys
        0 False inherit_blocked_sys inherit_released_sys]
    i run
  have 1: "prio_inv inherit_released_sys" by blast
  from prio_never_below_prio_orig [of inherit_owner_sys _ _ 0 _ _ inherit_released_sys] r c
  have 2: "prio (procs inherit_released_sys 1) = prio_orig (procs inherit_owner_sys 1)"
    by auto
  from i run 1 a lt r 2 show ?thesis by blast
qed

section \<open>Queue membership\<close>

subsection \<open>The schedulers\<close>

lemma queues_ok_pick:
  assumes "queues_ok s" and "n \<in> set (readyqueue s)"
  shows "queues_ok (s\<lparr>readyqueue := remove1 n (readyqueue s)\<rparr>)"
    and "on_no_queue (s\<lparr>readyqueue := remove1 n (readyqueue s)\<rparr>) n"
proof -
  from assms(1) have d: "distinct (readyqueue s)"
    and w: "\<forall>i<32. distinct (waitqueue (resources s i))"
    and rw: "\<forall>i<32. set (readyqueue s) \<inter> set (waitqueue (resources s i)) = {}"
    and ww: "\<forall>i<32. \<forall>j<32. i \<noteq> j \<longrightarrow>
           set (waitqueue (resources s i)) \<inter> set (waitqueue (resources s j)) = {}"
    by (simp_all add: queues_ok_def)
  have sub: "set (remove1 n (readyqueue s)) \<subseteq> set (readyqueue s)" by (rule set_remove1_subset)
  from d have d': "distinct (remove1 n (readyqueue s))" by simp
  from rw sub have rw': "\<forall>i<32. set (remove1 n (readyqueue s)) \<inter> set (waitqueue (resources s i)) = {}"
    by blast
  from d' w rw' ww show "queues_ok (s\<lparr>readyqueue := remove1 n (readyqueue s)\<rparr>)"
    by (simp add: queues_ok_def)
  from d have "n \<notin> set (remove1 n (readyqueue s))" by simp
  moreover from rw assms(2) have "\<forall>i<32. n \<notin> set (waitqueue (resources s i))" by blast
  ultimately show "on_no_queue (s\<lparr>readyqueue := remove1 n (readyqueue s)\<rparr>) n"
    by (simp add: on_no_queue_def)
qed

lemma queues_ok_requeue:
  assumes "queues_ok s" and "on_no_queue s c"
  shows "queues_ok (s\<lparr>readyqueue := readyqueue s @ [c]\<rparr>)"
proof -
  from assms(1) have d: "distinct (readyqueue s)"
    and w: "\<forall>i<32. distinct (waitqueue (resources s i))"
    and rw: "\<forall>i<32. set (readyqueue s) \<inter> set (waitqueue (resources s i)) = {}"
    and ww: "\<forall>i<32. \<forall>j<32. i \<noteq> j \<longrightarrow>
           set (waitqueue (resources s i)) \<inter> set (waitqueue (resources s j)) = {}"
    by (simp_all add: queues_ok_def)
  from assms(2) have c: "c \<notin> set (readyqueue s)" "\<forall>i<32. c \<notin> set (waitqueue (resources s i))"
    by (simp_all add: on_no_queue_def)
  from d c(1) have d': "distinct (readyqueue s @ [c])" by simp
  from rw c(2) have rw': "\<forall>i<32. set (readyqueue s @ [c]) \<inter> set (waitqueue (resources s i)) = {}"
    by auto
  from d' w rw' ww show ?thesis by (simp add: queues_ok_def)
qed

lemma queues_ok_preempt:
  assumes "queues_ok s" and "on_no_queue s c" and "n \<in> set (readyqueue s)"
  shows "queues_ok (s\<lparr>readyqueue := remove1 n (readyqueue s @ [c])\<rparr>)"
    and "on_no_queue (s\<lparr>readyqueue := remove1 n (readyqueue s @ [c])\<rparr>) n"
proof -
  let ?t = "s\<lparr>readyqueue := readyqueue s @ [c]\<rparr>"
  have t: "queues_ok ?t" using assms(1,2) by (rule queues_ok_requeue)
  have n: "n \<in> set (readyqueue ?t)" using assms(3) by simp
  from queues_ok_pick [OF t n]
  show "queues_ok (s\<lparr>readyqueue := remove1 n (readyqueue s @ [c])\<rparr>)"
    and "on_no_queue (s\<lparr>readyqueue := remove1 n (readyqueue s @ [c])\<rparr>) n"
    by simp_all
qed

lemma current_dispatch: "current (dispatch r s) = r"
  by (simp add: dispatch_def split: option.splits)

lemma queues_ok_dispatch: "queues_ok (dispatch r s) = queues_ok s"
  by (simp add: queues_ok_def dispatch_def split: option.splits)

lemma on_no_queue_dispatch: "on_no_queue (dispatch r s) n = on_no_queue s n"
  by (simp add: on_no_queue_def dispatch_def split: option.splits)

lemma schedule_outcome_inv:
  assumes "membership_inv s" and "schedule_outcome s r s'"
  shows "queues_ok s' \<and> (\<forall>n. r = Some n \<longrightarrow> on_no_queue s' n) \<and> membership_inv (dispatch r s')"
proof -
  from assms(1) have q: "queues_ok s"
    and cur: "\<And>c. current s = Some c \<Longrightarrow> status (procs s c) \<noteq> PROCESS_WAIT \<Longrightarrow> on_no_queue s c"
    by (simp_all add: membership_inv_def)
  have main: "queues_ok s' \<and> (\<forall>n. r = Some n \<longrightarrow> on_no_queue s' n)"
    using assms(2) unfolding schedule_outcome_def
  proof (elim disjE exE conjE)
    assume "s' = s" "r = None"
    with q show ?thesis by simp
  next
    fix c assume "s' = s" "r = Some c" "current s = Some c" "status (procs s c) \<noteq> PROCESS_WAIT"
    with q cur show ?thesis by simp
  next
    fix n assume "n \<in> set (readyqueue s)" "r = Some n"
      "s' = s\<lparr>readyqueue := remove1 n (readyqueue s)\<rparr>"
    with queues_ok_pick [OF q, of n] show ?thesis by simp
  next
    fix c n assume "n \<in> set (readyqueue s)" "current s = Some c"
      "status (procs s c) \<noteq> PROCESS_WAIT" "r = Some n"
      "s' = s\<lparr>readyqueue := remove1 n (readyqueue s @ [c])\<rparr>"
    with queues_ok_preempt [OF q, of c n] cur show ?thesis by simp
  qed
  from main have "membership_inv (dispatch r s')"
    by (simp add: membership_inv_def queues_ok_dispatch on_no_queue_dispatch current_dispatch)
  with main show ?thesis by simp
qed


lemma fifo_pick_next_outcome:
  "fifo_pick_next s = Inr (r, s') \<Longrightarrow> schedule_outcome s r s'"
  by (cases "readyqueue s") (auto simp: fifo_pick_next_def schedule_outcome_def)

lemma fifo_schedule_outcome:
  "fifo_schedule s = Inr (r, s') \<Longrightarrow> schedule_outcome s r s'"
proof (cases "current s")
  case None
  then show "fifo_schedule s = Inr (r, s') \<Longrightarrow> schedule_outcome s r s'"
    by (simp add: fifo_schedule_def fifo_pick_next_outcome)
next
  case (Some c)
  assume a: "fifo_schedule s = Inr (r, s')"
  show "schedule_outcome s r s'"
  proof (cases "status (procs s c) \<noteq> PROCESS_WAIT \<and> age (procs s c) < lifespan (procs s c)")
    case True
    with a Some show ?thesis by (auto simp: fifo_schedule_def schedule_outcome_def)
  next
    case False
    with a Some have "fifo_pick_next s = Inr (r, s')"
      by (auto simp: fifo_schedule_def split: if_splits)
    then show ?thesis by (rule fifo_pick_next_outcome)
  qed
qed

lemma sjf_pick_next_outcome:
  assumes "sjf_pick_next s = Inr (r, s')"
  shows "schedule_outcome s r s'"
proof (cases "readyqueue s = []")
  case True
  with assms show ?thesis by (simp add: sjf_pick_next_def schedule_outcome_def)
next
  case False
  let ?f = "\<lambda>p. lifespan (procs s p)"
  let ?next = "scan_eq ?f (scan_min ?f (readyqueue s) 100000) (readyqueue s)"
  from assms False obtain q where q: "list_del_init ?next (readyqueue s) = Inr q"
    by (auto simp: sjf_pick_next_def Let_def split: sum.splits)
  from list_del_init_Inr [OF q] obtain n where n: "?next = Entry n" "q = remove1 n (readyqueue s)"
    by blast
  from scan_eq_Entry_mem [OF n(1)] have "n \<in> set (readyqueue s)" .
  moreover from assms False q n have "r = Some n" "s' = s\<lparr>readyqueue := remove1 n (readyqueue s)\<rparr>"
    by (simp_all add: sjf_pick_next_def Let_def)
  ultimately show ?thesis by (auto simp: schedule_outcome_def)
qed

lemma sjf_schedule_outcome:
  "sjf_schedule s = Inr (r, s') \<Longrightarrow> schedule_outcome s r s'"
proof (cases "current s")
  case None
  then show "sjf_schedule s = Inr (r, s') \<Longrightarrow> schedule_outcome s r s'"
    by (simp add: sjf_schedule_def sjf_pick_next_outcome)
next
  case (Some c)
  assume a: "sjf_schedule s = Inr (r, s')"
  show "schedule_outcome s r s'"
  proof (cases "status (procs s c) \<noteq> PROCESS_WAIT \<and> age (procs s c) < lifespan (procs s c)")
    case True
    with a Some show ?thesis by (auto simp: sjf_schedule_def schedule_outcome_def)
  next
    case False
    with a Some have "sjf_pick_next s = Inr (r, s')"
      by (auto simp: sjf_schedule_def split: if_splits)
    then show ?thesis by (rule sjf_pick_next_outcome)
  qed
qed

lemma rr_pick_next_Inr:
  "rr_pick_next t = Inr (r, s') \<Longrightarrow>
     (readyqueue t = [] \<and> r = None \<and> s' = t)
     \<or> (\<exists>n. n \<in> set (readyqueue t) \<and> r = Some n \<and> s' = t\<lparr>readyqueue := remove1 n (readyqueue t)\<rparr>)"
  by (cases "readyqueue t") (auto simp: rr_pick_next_def)

lemma rr_schedule_outcome:
  assumes a: "rr_schedule s = Inr (r, s')"
  shows "schedule_outcome s r s'"
proof (cases "current s")
  case None
  with a have "rr_pick_next s = Inr (r, s')" by (simp add: rr_schedule_def)
  from rr_pick_next_Inr [OF this] show ?thesis by (auto simp: schedule_outcome_def)
next
  case (Some c)
  show ?thesis
  proof (cases "status (procs s c) = PROCESS_WAIT \<or> age (procs s c) = lifespan (procs s c)")
    case True
    with a Some have "rr_pick_next s = Inr (r, s')" by (auto simp: rr_schedule_def)
    from rr_pick_next_Inr [OF this] show ?thesis by (auto simp: schedule_outcome_def)
  next
    case False
    show ?thesis
    proof (cases "readyqueue s = []")
      case True
      with a Some False have "r = None \<or> r = Some c" "s' = s"
        by (auto simp: rr_schedule_def rr_pick_next_def split: if_splits)
      with Some False show ?thesis by (auto simp: schedule_outcome_def)
    next
      case ne: False
      then obtain h t where ht: "readyqueue s = h # t" by (cases "readyqueue s") auto
      with a Some False have "r = Some h" "s' = s\<lparr>readyqueue := remove1 h (readyqueue s @ [c])\<rparr>"
        by (auto simp: rr_schedule_def rr_pick_next_def list_add_tail_def)
      with Some False ht show ?thesis by (auto simp: schedule_outcome_def)
    qed
  qed
qed


lemma srtf_pick_next_Inr:
  assumes "srtf_pick_next x t = Inr (r, s')" and "x \<noteq> Head"
  shows "(readyqueue t = [] \<and> s' = t \<and> (x = Null \<and> r = None \<or> (\<exists>n. x = Entry n \<and> r = Some n)))
     \<or> (\<exists>n. x = Entry n \<and> r = Some n \<and> s' = t\<lparr>readyqueue := remove1 n (readyqueue t)\<rparr>)"
proof (cases "readyqueue t = []")
  case True
  with assms show ?thesis by (cases x) (auto simp: srtf_pick_next_def)
next
  case False
  with assms(1) obtain q where q: "list_del_init x (readyqueue t) = Inr q"
    by (auto simp: srtf_pick_next_def split: sum.splits)
  from list_del_init_Inr [OF q] obtain n where n: "x = Entry n" "q = remove1 n (readyqueue t)"
    by blast
  with assms(1) False q show ?thesis by (simp add: srtf_pick_next_def)
qed

lemma srtf_schedule_outcome:
  assumes a: "srtf_schedule s = Inr (r, s')"
  shows "schedule_outcome s r s'"
proof -
  let ?minv = "if readyqueue s \<noteq> [] then scan_min (remaining s) (readyqueue s) 100000 else 100000"
  let ?next = "if readyqueue s \<noteq> [] then scan_eq (remaining s) ?minv (readyqueue s) else Null"
  have nx: "?next = Null \<and> readyqueue s = []
      \<or> ?next = Head \<or> (\<exists>n. ?next = Entry n \<and> n \<in> set (readyqueue s))"
  proof (cases "readyqueue s = []")
    case True then show ?thesis by simp
  next
    case False
    then show ?thesis
      using scan_eq_Entry_mem [of "remaining s" ?minv "readyqueue s"]
      by (cases "scan_eq (remaining s) ?minv (readyqueue s)") (auto simp: scan_eq_not_Null)
  qed
  have pick: "schedule_outcome s r s'" if p: "srtf_pick_next ?next s = Inr (r, s')"
  proof -
    from p have nh: "?next \<noteq> Head"
      by (auto simp: srtf_pick_next_def split: if_splits)
    from srtf_pick_next_Inr [OF p nh] nx nh show ?thesis
      by (auto simp: schedule_outcome_def split: if_splits)
  qed
  show ?thesis
  proof (cases "current s")
    case None
    with a have "srtf_pick_next ?next s = Inr (r, s')" by (simp add: srtf_schedule_def Let_def)
    then show ?thesis by (rule pick)
  next
    case (Some c)
    show ?thesis
    proof (cases "status (procs s c) \<noteq> PROCESS_WAIT \<and> age (procs s c) < lifespan (procs s c)")
      case False
      with a Some have "srtf_pick_next ?next s = Inr (r, s')"
        by (auto simp: srtf_schedule_def Let_def split: if_splits)
      then show ?thesis by (rule pick)
    next
      case True
      show ?thesis
      proof (cases "lifespan (procs s c) - age (procs s c) > ?minv")
        case False
        with a Some True have "r = Some c" "s' = s"
          by (auto simp: srtf_schedule_def Let_def split: if_splits)
        with Some True show ?thesis by (auto simp: schedule_outcome_def)
      next
        case gt: True
        let ?t = "s\<lparr>readyqueue := list_add_tail c (readyqueue s)\<rparr>"
        from a Some True gt have p: "srtf_pick_next ?next ?t = Inr (r, s')"
          by (auto simp: srtf_schedule_def Let_def split: if_splits)
        have ne: "readyqueue ?t \<noteq> []" by (simp add: list_add_tail_def)
        from p ne obtain q where q: "list_del_init ?next (readyqueue ?t) = Inr q"
          by (auto simp: srtf_pick_next_def split: sum.splits)
        from list_del_init_Inr [OF q] obtain n where n: "?next = Entry n" by blast
        with nx have mem: "n \<in> set (readyqueue s)" by auto
        from p ne n have "r = Some n" "s' = s\<lparr>readyqueue := remove1 n (readyqueue s @ [c])\<rparr>"
          by (auto simp: srtf_pick_next_def list_add_tail_def split: if_splits)
        with mem Some True show ?thesis by (auto simp: schedule_outcome_def)
      qed
    qed
  qed
qed

lemma priority_pick_next_outcome:
  fixes f :: "nat \<Rightarrow> u32"
  assumes "(case list_del_init (scan_eq f v (readyqueue s)) (readyqueue s) of
            Inl e \<Rightarrow> Inl e
          | Inr q \<Rightarrow> Inr (case scan_eq f v (readyqueue s) of
                            Entry n \<Rightarrow> Some n | _ \<Rightarrow> None, s\<lparr>readyqueue := q\<rparr>)) = Inr (r, s')"
  shows "schedule_outcome s r s'"
proof -
  let ?next = "scan_eq f v (readyqueue s)"
  from assms obtain q where q: "list_del_init ?next (readyqueue s) = Inr q"
    by (auto split: sum.splits)
  from list_del_init_Inr [OF q] obtain n where n: "?next = Entry n" "q = remove1 n (readyqueue s)"
    by blast
  from scan_eq_Entry_mem [OF n(1)] have "n \<in> set (readyqueue s)" .
  moreover from assms q n have "r = Some n" "s' = s\<lparr>readyqueue := remove1 n (readyqueue s)\<rparr>"
    by simp_all
  ultimately show ?thesis by (auto simp: schedule_outcome_def)
qed

lemma prio_pick_next_alt:
  "prio_pick_next s =
     (if readyqueue s = [] then Inr (None, s)
      else let f = (\<lambda>p. prio_orig (procs s p));
               next = scan_eq f (scan_max f (readyqueue s) (f (hd (readyqueue s)))) (readyqueue s)
           in (case list_del_init next (readyqueue s) of
                 Inl e \<Rightarrow> Inl e
               | Inr q \<Rightarrow> Inr (case next of Entry n \<Rightarrow> Some n | _ \<Rightarrow> None, s\<lparr>readyqueue := q\<rparr>)))"
  by (cases "readyqueue s")
    (simp_all add: prio_pick_next_def Let_def cong: sum.case_cong del: scan_eq.simps scan_max.simps)

lemma pip_pick_next_alt:
  "pip_pick_next s =
     (if readyqueue s = [] then Inr (None, s)
      else let f = (\<lambda>p. prio (procs s p));
               next = scan_eq f (scan_max f (readyqueue s) (f (hd (readyqueue s)))) (readyqueue s)
           in (case list_del_init next (readyqueue s) of
                 Inl e \<Rightarrow> Inl e
               | Inr q \<Rightarrow> Inr (case next of Entry n \<Rightarrow> Some n | _ \<Rightarrow> None, s\<lparr>readyqueue := q\<rparr>)))"
  by (cases "readyqueue s")
    (simp_all add: pip_pick_next_def Let_def cong: sum.case_cong del: scan_eq.simps scan_max.simps)

lemma prio_pick_next_outcome:
  assumes "prio_pick_next s = Inr (r, s')"
  shows "schedule_outcome s r s'"
proof (cases "readyqueue s = []")
  case True
  with assms show ?thesis by (simp add: prio_pick_next_alt schedule_outcome_def)
next
  case False
  with assms show ?thesis
    unfolding prio_pick_next_alt Let_def
    by (simp only: if_False) (rule priority_pick_next_outcome)
qed

lemma pip_pick_next_outcome:
  assumes "pip_pick_next s = Inr (r, s')"
  shows "schedule_outcome s r s'"
proof (cases "readyqueue s = []")
  case True
  with assms show ?thesis by (simp add: pip_pick_next_alt schedule_outcome_def)
next
  case False
  with assms show ?thesis
    unfolding pip_pick_next_alt Let_def
    by (simp only: if_False) (rule priority_pick_next_outcome)
qed

lemma priority_preempt_outcome:
  fixes f :: "nat \<Rightarrow> u32"
  assumes "current s = Some c" and "status (procs s c) \<noteq> PROCESS_WAIT"
    and "(case scan_eq f m (readyqueue s) of
            Entry n \<Rightarrow> Inr (Some n, s\<lparr>readyqueue := remove1 n (list_add_tail c (readyqueue s))\<rparr>)
          | _ \<Rightarrow> Inr (Some c, s)) = (Inr (r, s') :: fault + (nat option \<times> sys))"
  shows "schedule_outcome s r s'"
proof (cases "scan_eq f m (readyqueue s)")
  case (Entry n)
  from scan_eq_Entry_mem [OF this] have "n \<in> set (readyqueue s)" .
  with assms Entry show ?thesis by (auto simp: schedule_outcome_def list_add_tail_def)
next
  case Null
  with assms show ?thesis by (auto simp: schedule_outcome_def)
next
  case Head
  with assms show ?thesis by (auto simp: schedule_outcome_def)
qed

lemma prio_schedule_outcome:
  assumes a: "prio_schedule s = Inr (r, s')"
  shows "schedule_outcome s r s'"
proof (cases "current s")
  case None
  with a have "prio_pick_next s = Inr (r, s')" by (simp add: prio_schedule_def)
  then show ?thesis by (rule prio_pick_next_outcome)
next
  case (Some c)
  show ?thesis
  proof (cases "status (procs s c) = PROCESS_WAIT \<or> age (procs s c) = lifespan (procs s c)")
    case True
    with a Some have "prio_pick_next s = Inr (r, s')" by (auto simp: prio_schedule_def)
    then show ?thesis by (rule prio_pick_next_outcome)
  next
    case False
    show ?thesis
    proof (cases "readyqueue s = []")
      case True
      with a Some False have "r = None \<or> r = Some c" "s' = s"
        by (auto simp: prio_schedule_def split: if_splits)
      with Some False show ?thesis by (auto simp: schedule_outcome_def)
    next
      case ne: False
      from False have w: "status (procs s c) \<noteq> PROCESS_WAIT" by simp
      from a Some False ne show ?thesis
        using priority_preempt_outcome [OF Some w, of "\<lambda>p. prio_orig (procs s p)" _ r s']
        by (simp add: prio_schedule_def Let_def)
    qed
  qed
qed

lemma pip_schedule_outcome:
  assumes a: "pip_schedule s = Inr (r, s')"
  shows "schedule_outcome s r s'"
proof (cases "current s")
  case None
  with a have "pip_pick_next s = Inr (r, s')" by (simp add: pip_schedule_def)
  then show ?thesis by (rule pip_pick_next_outcome)
next
  case (Some c)
  show ?thesis
  proof (cases "status (procs s c) = PROCESS_WAIT \<or> age (procs s c) = lifespan (procs s c)")
    case True
    with a Some have "pip_pick_next s = Inr (r, s')" by (auto simp: pip_schedule_def)
    then show ?thesis by (rule pip_pick_next_outcome)
  next
    case False
    show ?thesis
    proof (cases "readyqueue s = []")
      case True
      with a Some False have "r = None \<or> r = Some c" "s' = s"
        by (auto simp: pip_schedule_def split: if_splits)
      with Some False show ?thesis by (auto simp: schedule_outcome_def)
    next
      case ne: False
      from False have w: "status (procs s c) \<noteq> PROCESS_WAIT" by simp
      from a Some False ne show ?thesis
        using priority_preempt_outcome [OF Some w, of "\<lambda>p. prio (procs s p)" _ r s']
        by (simp add: pip_schedule_def Let_def)
    qed
  qed
qed

subsection \<open>Acquire and release\<close>

lemma membership_inv_same:
  assumes "membership_inv s"
    and "readyqueue s' = readyqueue s" and "current s' = current s"
    and "\<forall>p. status (procs s' p) = status (procs s p)"
    and "\<forall>j. waitqueue (resources s' j) = waitqueue (resources s j)"
  shows "membership_inv s'"
  using assms by (simp add: membership_inv_def queues_ok_def on_no_queue_def)

lemma membership_inv_block:
  assumes inv: "membership_inv s" and c: "current s = Some c"
    and st: "status (procs s c) \<noteq> PROCESS_WAIT" and i: "i < 32"
    and r': "readyqueue s' = readyqueue s" and c': "current s' = current s"
    and st': "status (procs s' c) = PROCESS_WAIT"
    and w': "\<forall>j. waitqueue (resources s' j) =
               (if j = i then waitqueue (resources s i) @ [c] else waitqueue (resources s j))"
  shows "membership_inv s'"
proof -
  from inv have d: "distinct (readyqueue s)"
    and w: "\<forall>j<32. distinct (waitqueue (resources s j))"
    and rw: "\<forall>j<32. set (readyqueue s) \<inter> set (waitqueue (resources s j)) = {}"
    and ww: "\<forall>j<32. \<forall>k<32. j \<noteq> k \<longrightarrow>
           set (waitqueue (resources s j)) \<inter> set (waitqueue (resources s k)) = {}"
    by (simp_all add: membership_inv_def queues_ok_def)
  from inv c st have "on_no_queue s c" by (simp add: membership_inv_def)
  then have cr: "c \<notin> set (readyqueue s)" and cw: "\<forall>j<32. c \<notin> set (waitqueue (resources s j))"
    by (simp_all add: on_no_queue_def)
  have 1: "distinct (readyqueue s')" using d r' by simp
  have 2: "\<forall>j<32. distinct (waitqueue (resources s' j))" using w cw w' by simp
  have 3: "\<forall>j<32. set (readyqueue s') \<inter> set (waitqueue (resources s' j)) = {}"
    using rw cr w' r' by simp
  have 4: "\<forall>j<32. \<forall>k<32. j \<noteq> k \<longrightarrow>
           set (waitqueue (resources s' j)) \<inter> set (waitqueue (resources s' k)) = {}"
  proof (intro allI impI)
    fix j k :: nat assume jk: "j < 32" "k < 32" "j \<noteq> k"
    with ww have "set (waitqueue (resources s j)) \<inter> set (waitqueue (resources s k)) = {}" by simp
    moreover from cw jk have "c \<notin> set (waitqueue (resources s j))"
      "c \<notin> set (waitqueue (resources s k))" by simp_all
    ultimately show "set (waitqueue (resources s' j)) \<inter> set (waitqueue (resources s' k)) = {}"
      using w' jk(3) by auto
  qed
  from 1 2 3 4 c c' st' show ?thesis by (simp add: membership_inv_def queues_ok_def)
qed

lemma membership_inv_wake:
  assumes inv: "membership_inv s"
    and run: "\<forall>c. current s = Some c \<longrightarrow> status (procs s c) \<noteq> PROCESS_WAIT"
    and i: "i < 32" and wi: "x \<in> set (waitqueue (resources s i))"
    and r': "readyqueue s' = readyqueue s @ [x]" and c': "current s' = current s"
    and st': "\<forall>p. p \<noteq> x \<longrightarrow> status (procs s' p) = status (procs s p)"
    and w': "\<forall>j. waitqueue (resources s' j) =
               (if j = i then remove1 x (waitqueue (resources s i)) else waitqueue (resources s j))"
  shows "membership_inv s'"
proof -
  from inv have d: "distinct (readyqueue s)"
    and w: "\<forall>j<32. distinct (waitqueue (resources s j))"
    and rw: "\<forall>j<32. set (readyqueue s) \<inter> set (waitqueue (resources s j)) = {}"
    and ww: "\<forall>j<32. \<forall>k<32. j \<noteq> k \<longrightarrow>
           set (waitqueue (resources s j)) \<inter> set (waitqueue (resources s k)) = {}"
    by (simp_all add: membership_inv_def queues_ok_def)
  from rw i wi have xr: "x \<notin> set (readyqueue s)" by blast
  have xo: "x \<notin> set (waitqueue (resources s j))" if "j < 32" "j \<noteq> i" for j
    using ww i wi that by blast
  have sub: "set (waitqueue (resources s' j)) \<subseteq> set (waitqueue (resources s j))" for j
    using w' set_remove1_subset [of x "waitqueue (resources s i)"] by auto
  have xn: "x \<notin> set (waitqueue (resources s' j))" if "j < 32" for j
  proof (cases "j = i")
    case True
    with w i w' show ?thesis by simp
  next
    case False
    with xo [OF that] w' show ?thesis by simp
  qed
  have 1: "distinct (readyqueue s')" using d xr r' by simp
  have 2: "\<forall>j<32. distinct (waitqueue (resources s' j))" using w w' by simp
  have 3: "\<forall>j<32. set (readyqueue s') \<inter> set (waitqueue (resources s' j)) = {}"
  proof (intro allI impI)
    fix j :: nat assume j: "j < 32"
    with rw have "set (readyqueue s) \<inter> set (waitqueue (resources s j)) = {}" by simp
    with sub [of j] have "set (readyqueue s) \<inter> set (waitqueue (resources s' j)) = {}" by blast
    with xn [OF j] r' show "set (readyqueue s') \<inter> set (waitqueue (resources s' j)) = {}"
      by simp
  qed
  have 4: "\<forall>j<32. \<forall>k<32. j \<noteq> k \<longrightarrow>
           set (waitqueue (resources s' j)) \<inter> set (waitqueue (resources s' k)) = {}"
  proof (intro allI impI)
    fix j k :: nat assume jk: "j < 32" "k < 32" "j \<noteq> k"
    with ww have "set (waitqueue (resources s j)) \<inter> set (waitqueue (resources s k)) = {}" by simp
    with sub [of j] sub [of k]
    show "set (waitqueue (resources s' j)) \<inter> set (waitqueue (resources s' k)) = {}" by blast
  qed
  have 5: "on_no_queue s' c" if cc: "current s' = Some c" for c
  proof -
    from cc c' have cs: "current s = Some c" by simp
    with run have "status (procs s c) \<noteq> PROCESS_WAIT" by simp
    with inv cs have "on_no_queue s c" by (simp add: membership_inv_def)
    then have cr: "c \<notin> set (readyqueue s)" and cw: "\<forall>j<32. c \<notin> set (waitqueue (resources s j))"
      by (simp_all add: on_no_queue_def)
    from cw i wi have "c \<noteq> x" by blast
    with cr r' have "c \<notin> set (readyqueue s')" by simp
    moreover from cw sub have "\<forall>j<32. c \<notin> set (waitqueue (resources s' j))" by blast
    ultimately show ?thesis by (simp add: on_no_queue_def)
  qed
  from 1 2 3 4 5 show ?thesis by (simp add: membership_inv_def queues_ok_def)
qed

lemma nat_in_range: "resource_in_range i \<Longrightarrow> nat i < 32"
  unfolding resource_in_range_def NR_RESOURCES_def by linarith

lemma fcfs_acquire_inv:
  assumes inv: "membership_inv s" and c: "current s = Some c"
    and st: "status (procs s c) \<noteq> PROCESS_WAIT" and a: "fcfs_acquire i s = Inr (b, s')"
  shows "membership_inv s'"
proof -
  from a have rng: "resource_in_range i" by (auto simp: fcfs_acquire_def split: if_splits)
  show ?thesis
  proof (cases "owner (resources s (nat i))")
    case None
    with a rng have "s' = set_owner (nat i) (current s) s" by (simp add: fcfs_acquire_def Let_def)
    then show ?thesis by (intro membership_inv_same [OF inv]) (simp_all add: set_owner_def)
  next
    case (Some ow)
    with a rng c have s': "s' = set_waitqueue (nat i)
        (list_add_tail c (waitqueue (resources s (nat i)))) (set_status c PROCESS_WAIT s)"
      by (simp add: fcfs_acquire_def Let_def)
    show ?thesis
      by (rule membership_inv_block [OF inv c st nat_in_range [OF rng]])
        (simp_all add: s' update_defs)
  qed
qed

lemma pip_acquire_inv:
  assumes inv: "membership_inv s" and c: "current s = Some c"
    and st: "status (procs s c) \<noteq> PROCESS_WAIT" and a: "pip_acquire i s = Inr (b, s')"
  shows "membership_inv s'"
proof -
  from a have rng: "resource_in_range i" by (auto simp: pip_acquire_def split: if_splits)
  show ?thesis
  proof (cases "owner (resources s (nat i))")
    case None
    with a rng have "s' = set_owner (nat i) (current s) s" by (simp add: pip_acquire_def Let_def)
    then show ?thesis by (intro membership_inv_same [OF inv]) (simp_all add: set_owner_def)
  next
    case (Some ow)
    from pip_acquire_owned [OF rng Some c] a
    have "readyqueue s' = readyqueue s" "current s' = current s"
      "status (procs s' c) = PROCESS_WAIT"
      "waitqueue (resources s' (nat i)) = waitqueue (resources s (nat i)) @ [c]"
      "\<forall>j. j \<noteq> nat i \<longrightarrow> resources s' j = resources s j"
      by auto
    then show ?thesis
      by (intro membership_inv_block [OF inv c st nat_in_range [OF rng]]) simp_all
  qed
qed


lemma prio_acquire_inv:
  assumes inv: "membership_inv s" and c: "current s = Some c"
    and st: "status (procs s c) \<noteq> PROCESS_WAIT" and a: "prio_acquire i s = Inr (b, s')"
  shows "membership_inv s'"
proof -
  from a have rng: "resource_in_range i" by (auto simp: prio_acquire_def split: if_splits)
  show ?thesis
  proof (cases "owner (resources s (nat i))")
    case None
    with a rng have "s' = set_owner (nat i) (current s) s" by (simp add: prio_acquire_def Let_def)
    then show ?thesis by (intro membership_inv_same [OF inv]) (simp_all add: set_owner_def)
  next
    case (Some ow)
    with a rng c have s': "s' = set_waitqueue (nat i)
        (list_add_tail c (waitqueue (resources s (nat i)))) (set_status c PROCESS_WAIT s)"
      by (simp add: prio_acquire_def Let_def)
    show ?thesis
      by (rule membership_inv_block [OF inv c st nat_in_range [OF rng]])
        (simp_all add: s' update_defs)
  qed
qed

lemma membership_inv_release:
  assumes inv: "membership_inv s"
    and run: "\<forall>c. current s = Some c \<longrightarrow> status (procs s c) \<noteq> PROCESS_WAIT"
    and i: "i < 32"
    and eff: "release_outcome i s s'"
  shows "membership_inv s'"
  using eff unfolding release_outcome_def
proof (elim disjE exE conjE)
  assume "readyqueue s' = readyqueue s" "current s' = current s"
    "\<forall>p. status (procs s' p) = status (procs s p)"
    "\<forall>j. waitqueue (resources s' j) = waitqueue (resources s j)"
  then show ?thesis by (rule membership_inv_same [OF inv])
next
  fix x assume "x \<in> set (waitqueue (resources s i))"
    "readyqueue s' = readyqueue s @ [x]" "current s' = current s"
    "\<forall>p. p \<noteq> x \<longrightarrow> status (procs s' p) = status (procs s p)"
    "\<forall>j. waitqueue (resources s' j) =
          (if j = i then remove1 x (waitqueue (resources s i)) else waitqueue (resources s j))"
  then show ?thesis by (rule membership_inv_wake [OF inv run i])
qed

lemma fcfs_release_outcome:
  assumes a: "fcfs_release i s = Inr s'"
  shows "resource_in_range i \<and> release_outcome (nat i) s s'"
proof -
  from a have rng: "resource_in_range i" by (auto simp: fcfs_release_def split: if_splits)
  have "release_outcome (nat i) s s'"
  proof (cases "waitqueue (resources s (nat i))")
    case Nil
    with a rng have "s' = set_owner (nat i) None s"
      by (auto simp: fcfs_release_def Let_def split: if_splits)
    then show ?thesis by (simp add: release_outcome_def set_owner_def)
  next
    case (Cons x xs)
    with a rng have "s' = (set_status x PROCESS_READY
          (set_waitqueue (nat i) (remove1 x (x # xs)) (set_owner (nat i) None s)))
        \<lparr>readyqueue := readyqueue s @ [x]\<rparr>"
      by (auto simp: fcfs_release_def Let_def update_defs split: if_splits)
    with Cons show ?thesis unfolding release_outcome_def
      by (intro disjI2 exI [of _ x]) (simp add: update_defs)
  qed
  with rng show ?thesis by simp
qed

lemma prio_release_outcome:
  assumes a: "prio_release i s = Inr s'"
  shows "resource_in_range i \<and> release_outcome (nat i) s s'"
proof -
  from a have rng: "resource_in_range i" by (auto simp: prio_release_def split: if_splits)
  have "release_outcome (nat i) s s'"
  proof (cases "waitqueue (resources s (nat i))")
    case Nil
    with a rng have "s' = set_owner (nat i) None s"
      by (auto simp: prio_release_def Let_def split: if_splits)
    then show ?thesis by (simp add: release_outcome_def set_owner_def)
  next
    case (Cons x xs)
    with a rng have "s' = (set_status x PROCESS_READY
          (set_waitqueue (nat i) (remove1 x (x # xs)) (set_owner (nat i) None s)))
        \<lparr>readyqueue := readyqueue s @ [x]\<rparr>"
      by (auto simp: prio_release_def Let_def update_defs split: if_splits)
    with Cons show ?thesis unfolding release_outcome_def
      by (intro disjI2 exI [of _ x]) (simp add: update_defs)
  qed
  with rng show ?thesis by simp
qed

lemma pip_release_outcome:
  assumes a: "pip_release i s = Inr s'"
  shows "resource_in_range i \<and> release_outcome (nat i) s s'"
proof -
  from a have rng: "resource_in_range i" by (auto simp: pip_release_def split: if_splits)
  from a rng obtain ow where ow: "owner (resources s (nat i)) = Some ow" "current s = Some ow"
    by (auto simp: pip_release_def Let_def split: if_splits option.splits)
  let ?s1 = "set_owner (nat i) None (set_prio ow (prio_orig (procs s ow)) s)"
  have "release_outcome (nat i) s s'"
  proof (cases "waitqueue (resources s (nat i))")
    case Nil
    with a rng ow have "s' = ?s1" by (simp add: pip_release_def Let_def)
    then show ?thesis by (simp add: release_outcome_def update_defs)
  next
    case (Cons x xs)
    let ?f = "\<lambda>p. prio (procs ?s1 p)"
    let ?next = "scan_eq ?f (scan_max ?f (x # xs) (?f x)) (x # xs)"
    from a rng ow Cons obtain n where n: "?next = Entry n"
      by (cases ?next) (simp_all add: pip_release_def Let_def del: scan_eq.simps scan_max.simps)
    from scan_eq_Entry_mem [OF n] Cons have mem: "n \<in> set (waitqueue (resources s (nat i)))"
      by simp
    from a rng ow Cons n have "s' = (set_status n PROCESS_READY
          (set_waitqueue (nat i) (remove1 n (x # xs)) ?s1))
        \<lparr>readyqueue := list_add_tail n (readyqueue ?s1)\<rparr>"
      by (simp add: pip_release_def Let_def set_status_def set_waitqueue_def
          del: scan_eq.simps scan_max.simps split: if_splits)
    with Cons mem show ?thesis unfolding release_outcome_def
      by (intro disjI2 exI [of _ n]) (simp add: update_defs)
  qed
  with rng show ?thesis by simp
qed

subsection \<open>The invariant\<close>

text \<open>
  Let the queues be in order (no process twice in a queue, no process in two queues) and
  let the current process, unless it is blocked, be on no queue. An acquire by a running
  current process keeps this; a release keeps it when the current process, if there is
  one, is not blocked; and after a call of any of the six schedulers that does not run
  off the end of a scan the queues are in order and the returned process is on no queue,
  so that the invariant holds again once the driver has made the returned process the
  current one.
\<close>

theorem queue_membership_exclusive:
  "(membership_inv s \<and> current s = Some c \<and> status (procs s c) \<noteq> PROCESS_WAIT
      \<and> acquire \<in> {fcfs_acquire, prio_acquire, pip_acquire} \<and> acquire i s = Inr (b, s1)
      \<longrightarrow> membership_inv s1)
   \<and> (membership_inv s \<and> (\<forall>c. current s = Some c \<longrightarrow> status (procs s c) \<noteq> PROCESS_WAIT)
      \<and> release \<in> {fcfs_release, prio_release, pip_release} \<and> release i s = Inr s2
      \<longrightarrow> membership_inv s2)
   \<and> (membership_inv s
      \<and> schedule \<in> {fifo_schedule, sjf_schedule, srtf_schedule, rr_schedule, prio_schedule,
            pip_schedule}
      \<and> schedule s = Inr (r, s3)
      \<longrightarrow> queues_ok s3 \<and> (\<forall>n. r = Some n \<longrightarrow> on_no_queue s3 n)
        \<and> membership_inv (dispatch r s3))"
proof (intro conjI impI)
  assume a: "membership_inv s \<and> current s = Some c \<and> status (procs s c) \<noteq> PROCESS_WAIT
      \<and> acquire \<in> {fcfs_acquire, prio_acquire, pip_acquire} \<and> acquire i s = Inr (b, s1)"
  then have "acquire = fcfs_acquire \<or> acquire = prio_acquire \<or> acquire = pip_acquire" by simp
  with a show "membership_inv s1"
    using fcfs_acquire_inv [of s c i b s1] prio_acquire_inv [of s c i b s1]
      pip_acquire_inv [of s c i b s1]
    by blast
next
  assume a: "membership_inv s
      \<and> (\<forall>c. current s = Some c \<longrightarrow> status (procs s c) \<noteq> PROCESS_WAIT)
      \<and> release \<in> {fcfs_release, prio_release, pip_release} \<and> release i s = Inr s2"
  then have "release = fcfs_release \<or> release = prio_release \<or> release = pip_release" by simp
  with a have "resource_in_range i \<and> release_outcome (nat i) s s2"
    using fcfs_release_outcome [of i s s2] prio_release_outcome [of i s s2]
      pip_release_outcome [of i s s2]
    by blast
  with a show "membership_inv s2"
    using membership_inv_release [of s "nat i" s2] nat_in_range [of i] by blast
next
  assume a: "membership_inv s
      \<and> schedule \<in> {fifo_schedule, sjf_schedule, srtf_schedule, rr_schedule, prio_schedule,
            pip_schedule}
      \<and> schedule s = Inr (r, s3)"
  then have "schedule = fifo_schedule \<or> schedule = sjf_schedule \<or> schedule = srtf_schedule
      \<or> schedule = rr_schedule \<or> schedule = prio_schedule \<or> schedule = pip_schedule" by simp
  with a have "schedule_outcome s r s3"
    using fifo_schedule_outcome [of s r s3] sjf_schedule_outcome [of s r s3]
      srtf_schedule_outcome [of s r s3] rr_schedule_outcome [of s r s3]
      prio_schedule_outcome [of s r s3] pip_schedule_outcome [of s r s3]
    by blast
  with a have "queues_ok s3 \<and> (\<forall>n. r = Some n \<longrightarrow> on_no_queue s3 n)
        \<and> membership_inv (dispatch r s3)"
    using schedule_outcome_inv [of s r s3] by blast
  then show "queues_ok s3" and "\<forall>n. r = Some n \<longrightarrow> on_no_queue s3 n"
    and "membership_inv (dispatch r s3)"
    by blast+
qed

theorem queue_membership_exclusive_witness:
  "membership_inv inherit_sys
   \<and> pip_acquire 0 inherit_sys = Inr (False, inherit_blocked_sys)
   \<and> membership_inv inherit_blocked_sys
   \<and> pip_schedule inherit_blocked_sys = Inr (Some 1, inherit_blocked_sys\<lparr>readyqueue := []\<rparr>)
   \<and> on_no_queue (inherit_blocked_sys\<lparr>readyqueue := []\<rparr>) 1
   \<and> pip_release 0 inherit_owner_sys = Inr inherit_released_sys
   \<and> membership_inv inherit_released_sys
   \<and> membership_inv short_sys
   \<and> srtf_schedule short_sys = Inr (Some 3, short_sys\<lparr>readyqueue := [2, 1]\<rparr>)
   \<and> queues_ok (short_sys\<lparr>readyqueue := [2, 1]\<rparr>)
   \<and> on_no_queue (short_sys\<lparr>readyqueue := [2, 1]\<rparr>) 3"
proof -
  have i: "membership_inv inherit_sys" "membership_inv inherit_blocked_sys"
    "membership_inv inherit_owner_sys" "membership_inv short_sys"
    by (simp_all add: membership_inv_def queues_ok_def on_no_queue_def inherit_sys_def
      inherit_blocked_sys_def inherit_owner_sys_def short_sys_def mk_process_def
      free_resource_def)
  have c: "current inherit_sys = Some 2" "status (procs inherit_sys 2) \<noteq> PROCESS_WAIT"
    "\<forall>c. current inherit_owner_sys = Some c
        \<longrightarrow> status (procs inherit_owner_sys c) \<noteq> PROCESS_WAIT"
    by (simp_all add: inherit_sys_def inherit_owner_sys_def mk_process_def)
  have a: "pip_acquire 0 inherit_sys = Inr (False, inherit_blocked_sys)"
    by (simp add: pip_acquire_def inherit_sys_def inherit_blocked_sys_def mk_process_def
        update_defs Let_def fun_upd_twist)
  have b: "pip_schedule inherit_blocked_sys = Inr (Some 1, inherit_blocked_sys\<lparr>readyqueue := []\<rparr>)"
    by (simp add: pip_schedule_def pip_pick_next_def inherit_blocked_sys_def mk_process_def
        Let_def)
  have r: "pip_release 0 inherit_owner_sys = Inr inherit_released_sys"
    by (simp add: pip_release_def inherit_owner_sys_def inherit_released_sys_def mk_process_def
        update_defs Let_def free_resource_def fun_upd_twist)
  have t: "srtf_schedule short_sys = Inr (Some 3, short_sys\<lparr>readyqueue := [2, 1]\<rparr>)"
    by (simp add: srtf_schedule_def srtf_pick_next_def remaining_def short_sys_def
        mk_process_def Let_def list_add_tail_def)
  from queue_membership_exclusive [of inherit_sys 2 pip_acquire 0 False inherit_blocked_sys]
    i(1) c(1,2) a
  have 1: "membership_inv inherit_blocked_sys" by simp
  from queue_membership_exclusive [of inherit_owner_sys _ _ 0 _ _ pip_release
      inherit_released_sys] i(3) c(3) r
  have 2: "membership_inv inherit_released_sys" by simp
  from queue_membership_exclusive [of inherit_blocked_sys _ _ _ _ _ _ _ pip_schedule
      "Some 1" "inherit_blocked_sys\<lparr>readyqueue := []\<rparr>"] i(2) b
  have 3: "on_no_queue (inherit_blocked_sys\<lparr>readyqueue := []\<rparr>) 1" by simp
  from queue_membership_exclusive [of short_sys _ _ _ _ _ _ _ srtf_schedule
      "Some 3" "short_sys\<lparr>readyqueue := [2, 1]\<rparr>"] i(4) t
  have 4: "queues_ok (short_sys\<lparr>readyqueue := [2, 1]\<rparr>)"
    "on_no_queue (short_sys\<lparr>readyqueue := [2, 1]\<rparr>) 3" by simp_all
  from i a 1 b 3 r 2 t 4 show ?thesis by blast
qed

subsection \<open>The schedulers that scan from the constant 100000\<close>

text \<open>The two states below satisfy the membership invariant.\<close>

lemma sentinel_states_membership:
  "membership_inv long_both_sys" "membership_inv long_ready_sys"
  by (simp_all add: membership_inv_def queues_ok_def on_no_queue_def long_both_sys_def
      long_ready_sys_def mk_process_def free_resource_def)



end
